theory Spec2Isabelle
  imports Main "HOL-Library.Word"
begin

unbundle bit_operations_syntax

section \<open>Data model\<close>

text \<open>
  The filter of \<^verbatim>\<open>bloom.go\<close> and its atomic bit set, embedded for a single caller
  (every atomic Load, Store and Or is one sequential step). Go's \<^verbatim>\<open>uint\<close> is
  taken at its 64-bit width, so \<^verbatim>\<open>uint\<close>, \<^verbatim>\<open>uint64\<close> and the bit pattern of
  \<^verbatim>\<open>int64\<close> are all \<open>64 word\<close>. The fields \<^verbatim>\<open>data\<close>, \<^verbatim>\<open>size\<close>, \<^verbatim>\<open>m\<close>,
  \<^verbatim>\<open>k\<close> and \<^verbatim>\<open>b\<close> carry a prefix, since the bare names would capture the
  variables of every statement below.
\<close>

type_synonym u64 = "64 word"
type_synonym byte = "8 word"

record atomicBitSet =
  bs_data :: "u64 list"
  bs_size :: u64

record BloomFilter =
  bf_m :: u64
  bf_k :: u64
  bf_b :: atomicBitSet

text \<open>Run-time panics of Go that the code can raise, and the errors it returns.\<close>

datatype panic = DivideByZero | IndexOutOfRange | MakeSliceLenOutOfRange

datatype error = MismatchM u64 u64 | MismatchK u64 u64 | EOF | ErrUnexpectedEOF

section \<open>The atomic bit set\<close>

text \<open>
  \<^verbatim>\<open>newAtomicBitSet\<close>. The word count is computed in \<^verbatim>\<open>uint\<close>, so \<^verbatim>\<open>size + 63\<close>
  wraps around. Here the caller chooses the size; a failure of \<^verbatim>\<open>make\<close> for a size
  beyond what the platform allocates is left out of the model.
\<close>

definition newAtomicBitSet :: "u64 \<Rightarrow> atomicBitSet" where
  "newAtomicBitSet sz =
     (let numInts = (sz + 63) div 64
      in \<lparr>bs_data = replicate (unat numInts) 0, bs_size = sz\<rparr>)"

text \<open>
  \<^verbatim>\<open>for i, v := range data { if i < len(abs.data) { abs.data[i].Store(v) } }\<close>
\<close>

fun store_from :: "nat \<Rightarrow> u64 list \<Rightarrow> u64 list \<Rightarrow> u64 list" where
  "store_from i [] ws = ws"
| "store_from i (v # vs) ws =
     store_from (Suc i) vs (if i < length ws then ws[i := v] else ws)"

definition fromAtomicBitSet :: "u64 list \<Rightarrow> u64 \<Rightarrow> atomicBitSet" where
  "fromAtomicBitSet dat sz =
     (let abs = newAtomicBitSet sz
      in abs\<lparr>bs_data := store_from 0 dat (bs_data abs)\<rparr>)"

text \<open>
  \<^verbatim>\<open>Set\<close> and \<^verbatim>\<open>Test\<close> of the bit set (the suffix tells them from the filter's
  methods). The slice access \<^verbatim>\<open>bs.data[index]\<close> panics in Go when
  \<^verbatim>\<open>index\<close> is not below \<^verbatim>\<open>len(bs.data)\<close>; that is the \<open>Inl\<close> branch.
\<close>

definition Set_bs :: "atomicBitSet \<Rightarrow> u64 \<Rightarrow> panic + atomicBitSet" where
  "Set_bs bs i =
     (if i \<ge> bs_size bs then Inr bs
      else let index = i div 64; pos = i mod 64; mask = push_bit (unat pos) (1 :: u64)
           in if unat index < length (bs_data bs)
              then Inr (bs\<lparr>bs_data := (bs_data bs)[unat index := bs_data bs ! unat index OR mask]\<rparr>)
              else Inl IndexOutOfRange)"

definition Test_bs :: "atomicBitSet \<Rightarrow> u64 \<Rightarrow> panic + bool" where
  "Test_bs bs i =
     (if i \<ge> bs_size bs then Inr False
      else let index = i div 64; pos = i mod 64; mask = push_bit (unat pos) (1 :: u64)
           in if unat index < length (bs_data bs)
              then Inr ((bs_data bs ! unat index AND mask) \<noteq> 0)
              else Inl IndexOutOfRange)"

text \<open>\<^verbatim>\<open>ClearAll\<close>: \<^verbatim>\<open>for i := range bs.data { bs.data[i].Store(0) }\<close>\<close>

definition ClearAll_bs :: "atomicBitSet \<Rightarrow> atomicBitSet" where
  "ClearAll_bs bs = bs\<lparr>bs_data := map (\<lambda>_. 0) (bs_data bs)\<rparr>"



text \<open>
  \<^verbatim>\<open>InPlaceUnion\<close> walks \<^verbatim>\<open>bs.data\<close> and reads \<^verbatim>\<open>other.data[i]\<close>, which panics
  as soon as \<^verbatim>\<open>other.data\<close> is the shorter slice.
\<close>

fun union_words :: "u64 list \<Rightarrow> u64 list \<Rightarrow> panic + u64 list" where
  "union_words [] _ = Inr []"
| "union_words (x # xs) [] = Inl IndexOutOfRange"
| "union_words (x # xs) (y # ys) =
     (case union_words xs ys of Inl e \<Rightarrow> Inl e | Inr zs \<Rightarrow> Inr ((x OR y) # zs))"

definition InPlaceUnion :: "atomicBitSet \<Rightarrow> atomicBitSet \<Rightarrow> panic + atomicBitSet" where
  "InPlaceUnion bs other =
     (case union_words (bs_data bs) (bs_data other) of
        Inl e \<Rightarrow> Inl e
      | Inr zs \<Rightarrow> Inr (bs\<lparr>bs_data := zs\<rparr>))"

section \<open>Probe positions\<close>

text \<open>
  The array \<^verbatim>\<open>[4]uint64\<close> of base hashes is a 4-tuple; \<open>at4\<close> is its indexing.
  Both indices that \<^verbatim>\<open>location\<close> computes are below 4 (lemma \<open>location_indices\<close>),
  so the array access never leaves the array.
\<close>

type_synonym hashes = "u64 \<times> u64 \<times> u64 \<times> u64"

fun at4 :: "hashes \<Rightarrow> u64 \<Rightarrow> u64" where
  "at4 (h0, h1, h2, h3) j =
     (if j = 0 then h0 else if j = 1 then h1 else if j = 2 then h2 else h3)"

definition location :: "hashes \<Rightarrow> u64 \<Rightarrow> u64" where
  "location h i =
     (let ii = i in at4 h (ii mod 2) + ii * at4 h (2 + (((ii + (ii mod 2)) mod 4) div 2)))"

text \<open>
  The method \<^verbatim>\<open>(f *BloomFilter) location\<close>: the remainder by \<^verbatim>\<open>f.m\<close> panics
  with a division by zero when \<^verbatim>\<open>f.m\<close> is 0.
\<close>

definition BloomFilter_location :: "BloomFilter \<Rightarrow> hashes \<Rightarrow> u64 \<Rightarrow> panic + u64" where
  "BloomFilter_location f h i =
     (if bf_m f = 0 then Inl DivideByZero else Inr (location h i mod bf_m f))"

section \<open>The filter\<close>

text \<open>Go's \<^verbatim>\<open>max\<close> of the file, on \<^verbatim>\<open>uint\<close>.\<close>

definition max_uint :: "u64 \<Rightarrow> u64 \<Rightarrow> u64" where
  "max_uint x y = (if x > y then x else y)"

definition New :: "u64 \<Rightarrow> u64 \<Rightarrow> BloomFilter" where
  "New m k =
     (let m = max_uint 1 m; k = max_uint 1 k
      in \<lparr>bf_m = m, bf_k = k, bf_b = newAtomicBitSet m\<rparr>)"

definition FromWithM :: "u64 list \<Rightarrow> u64 \<Rightarrow> u64 \<Rightarrow> BloomFilter" where
  "FromWithM dat m k =
     (let k = max_uint 1 k
      in \<lparr>bf_m = m, bf_k = k, bf_b = fromAtomicBitSet dat m\<rparr>)"

definition From :: "u64 list \<Rightarrow> u64 \<Rightarrow> BloomFilter" where
  "From dat k = (let m = of_nat (length dat * 64) in FromWithM dat m k)"

text \<open>
  \<^verbatim>\<open>EstimateParameters\<close> is floating-point arithmetic; \<^verbatim>\<open>NewWithEstimates\<close> takes
  it as the parameter \<open>est\<close> and passes whatever it returns to \<^verbatim>\<open>New\<close>.
\<close>

definition NewWithEstimates :: "(u64 \<Rightarrow> 'p \<Rightarrow> u64 \<times> u64) \<Rightarrow> u64 \<Rightarrow> 'p \<Rightarrow> BloomFilter" where
  "NewWithEstimates est n fp = (case est n fp of (m, k) \<Rightarrow> New m k)"

definition Cap :: "BloomFilter \<Rightarrow> u64" where
  "Cap f = bf_m f"

definition K :: "BloomFilter \<Rightarrow> u64" where
  "K f = bf_k f"

text \<open>
  The loops \<^verbatim>\<open>for i := uint(0); i < f.k; i++\<close>, one function each, with the counter
  as a word. The murmur hash behind \<^verbatim>\<open>baseHashes\<close> is not part of the file; every
  operation on a key takes it as the parameter \<open>baseHashes\<close>.
\<close>

function Add_loop :: "BloomFilter \<Rightarrow> hashes \<Rightarrow> u64 \<Rightarrow> panic + BloomFilter" where
  "Add_loop f h i =
     (if i < bf_k f then
        (case BloomFilter_location f h i of
           Inl e \<Rightarrow> Inl e
         | Inr l \<Rightarrow>
             (case Set_bs (bf_b f) l of
                Inl e \<Rightarrow> Inl e
              | Inr b' \<Rightarrow> Add_loop (f\<lparr>bf_b := b'\<rparr>) h (i + 1)))
      else Inr f)"
  by pat_completeness auto
termination
proof (relation "measure (\<lambda>(f, h, i). unat (bf_k f) - unat i)")
  show "wf (measure (\<lambda>(f, h, i). unat (bf_k f) - unat i))" by simp
next
  fix f :: BloomFilter and h :: hashes and i :: u64 and b' :: atomicBitSet
  assume lt: "i < bf_k f"
  then have "unat i < unat (bf_k f)" by (simp add: word_less_nat_alt)
  moreover have "unat (bf_k f) < 2 ^ 64" using unsigned_less [of "bf_k f", where ?'a = nat] by simp
  ultimately have "unat (i + 1) = Suc (unat i)" by (simp add: unat_word_ariths)
  with \<open>unat i < unat (bf_k f)\<close>
  show "((f\<lparr>bf_b := b'\<rparr>, h, i + 1), f, h, i) \<in> measure (\<lambda>(f, h, i). unat (bf_k f) - unat i)"
    by simp
qed

definition Add :: "(byte list \<Rightarrow> hashes) \<Rightarrow> BloomFilter \<Rightarrow> byte list \<Rightarrow> panic + BloomFilter" where
  "Add baseHashes f dat = (let h = baseHashes dat in Add_loop f h 0)"

definition AddHash :: "BloomFilter \<Rightarrow> hashes \<Rightarrow> panic + BloomFilter" where
  "AddHash f h = Add_loop f h 0"

function Test_loop :: "BloomFilter \<Rightarrow> hashes \<Rightarrow> u64 \<Rightarrow> panic + bool" where
  "Test_loop f h i =
     (if i < bf_k f then
        (case BloomFilter_location f h i of
           Inl e \<Rightarrow> Inl e
         | Inr l \<Rightarrow>
             (case Test_bs (bf_b f) l of
                Inl e \<Rightarrow> Inl e
              | Inr t \<Rightarrow> if \<not> t then Inr False else Test_loop f h (i + 1)))
      else Inr True)"
  by pat_completeness auto
termination
proof (relation "measure (\<lambda>(f, h, i). unat (bf_k f) - unat i)")
  show "wf (measure (\<lambda>(f, h, i). unat (bf_k f) - unat i))" by simp
next
  fix f :: BloomFilter and h :: hashes and i :: u64
  assume lt: "i < bf_k f"
  then have "unat i < unat (bf_k f)" by (simp add: word_less_nat_alt)
  moreover have "unat (bf_k f) < 2 ^ 64" using unsigned_less [of "bf_k f", where ?'a = nat] by simp
  ultimately have "unat (i + 1) = Suc (unat i)" by (simp add: unat_word_ariths)
  with \<open>unat i < unat (bf_k f)\<close>
  show "((f, h, i + 1), f, h, i) \<in> measure (\<lambda>(f, h, i). unat (bf_k f) - unat i)"
    by simp
qed

definition Test :: "(byte list \<Rightarrow> hashes) \<Rightarrow> BloomFilter \<Rightarrow> byte list \<Rightarrow> panic + bool" where
  "Test baseHashes f dat = (let h = baseHashes dat in Test_loop f h 0)"

definition TestHash :: "BloomFilter \<Rightarrow> hashes \<Rightarrow> panic + bool" where
  "TestHash f h = Test_loop f h 0"

text \<open>\<^verbatim>\<open>TestAndAdd\<close>: the bit is set whether or not it tested set.\<close>

function TestAndAdd_loop :: "BloomFilter \<Rightarrow> hashes \<Rightarrow> u64 \<Rightarrow> bool \<Rightarrow> panic + (bool \<times> BloomFilter)" where
  "TestAndAdd_loop f h i present =
     (if i < bf_k f then
        (case BloomFilter_location f h i of
           Inl e \<Rightarrow> Inl e
         | Inr l \<Rightarrow>
             (case Test_bs (bf_b f) l of
                Inl e \<Rightarrow> Inl e
              | Inr t \<Rightarrow>
                  (case Set_bs (bf_b f) l of
                     Inl e \<Rightarrow> Inl e
                   | Inr b' \<Rightarrow>
                       TestAndAdd_loop (f\<lparr>bf_b := b'\<rparr>) h (i + 1)
                         (if \<not> t then False else present))))
      else Inr (present, f))"
  by pat_completeness auto
termination
proof (relation "measure (\<lambda>(f, h, i, present). unat (bf_k f) - unat i)")
  show "wf (measure (\<lambda>(f, h, i, present). unat (bf_k f) - unat i))" by simp
next
  fix f :: BloomFilter and h :: hashes and i :: u64 and p p' :: bool and b' :: atomicBitSet
  assume lt: "i < bf_k f"
  then have "unat i < unat (bf_k f)" by (simp add: word_less_nat_alt)
  moreover have "unat (bf_k f) < 2 ^ 64" using unsigned_less [of "bf_k f", where ?'a = nat] by simp
  ultimately have "unat (i + 1) = Suc (unat i)" by (simp add: unat_word_ariths)
  with \<open>unat i < unat (bf_k f)\<close>
  show "((f\<lparr>bf_b := b'\<rparr>, h, i + 1, p'), f, h, i, p)
          \<in> measure (\<lambda>(f, h, i, present). unat (bf_k f) - unat i)"
    by simp
qed

definition TestAndAdd ::
  "(byte list \<Rightarrow> hashes) \<Rightarrow> BloomFilter \<Rightarrow> byte list \<Rightarrow> panic + (bool \<times> BloomFilter)" where
  "TestAndAdd baseHashes f dat = (let present = True; h = baseHashes dat in TestAndAdd_loop f h 0 present)"

text \<open>\<^verbatim>\<open>TestOrAdd\<close>: the bit is set only when it tested unset.\<close>

function TestOrAdd_loop :: "BloomFilter \<Rightarrow> hashes \<Rightarrow> u64 \<Rightarrow> bool \<Rightarrow> panic + (bool \<times> BloomFilter)" where
  "TestOrAdd_loop f h i present =
     (if i < bf_k f then
        (case BloomFilter_location f h i of
           Inl e \<Rightarrow> Inl e
         | Inr l \<Rightarrow>
             (case Test_bs (bf_b f) l of
                Inl e \<Rightarrow> Inl e
              | Inr t \<Rightarrow>
                  if \<not> t then
                    (case Set_bs (bf_b f) l of
                       Inl e \<Rightarrow> Inl e
                     | Inr b' \<Rightarrow> TestOrAdd_loop (f\<lparr>bf_b := b'\<rparr>) h (i + 1) False)
                  else TestOrAdd_loop f h (i + 1) present))
      else Inr (present, f))"
  by pat_completeness auto
termination
proof (relation "measure (\<lambda>(f, h, i, present). unat (bf_k f) - unat i)")
  show "wf (measure (\<lambda>(f, h, i, present). unat (bf_k f) - unat i))" by simp
next
  fix f :: BloomFilter and h :: hashes and i :: u64 and p p' :: bool and b' :: atomicBitSet
  assume lt: "i < bf_k f"
  then have "unat i < unat (bf_k f)" by (simp add: word_less_nat_alt)
  moreover have "unat (bf_k f) < 2 ^ 64" using unsigned_less [of "bf_k f", where ?'a = nat] by simp
  ultimately have "unat (i + 1) = Suc (unat i)" by (simp add: unat_word_ariths)
  with \<open>unat i < unat (bf_k f)\<close>
  show "((f\<lparr>bf_b := b'\<rparr>, h, i + 1, p'), f, h, i, p)
          \<in> measure (\<lambda>(f, h, i, present). unat (bf_k f) - unat i)"
    by simp
  from \<open>unat (i + 1) = Suc (unat i)\<close> \<open>unat i < unat (bf_k f)\<close>
  show "((f, h, i + 1, p), f, h, i, p) \<in> measure (\<lambda>(f, h, i, present). unat (bf_k f) - unat i)"
    by simp
qed

definition TestOrAdd ::
  "(byte list \<Rightarrow> hashes) \<Rightarrow> BloomFilter \<Rightarrow> byte list \<Rightarrow> panic + (bool \<times> BloomFilter)" where
  "TestOrAdd baseHashes f dat = (let present = True; h = baseHashes dat in TestOrAdd_loop f h 0 present)"

text \<open>
  \<^verbatim>\<open>Merge\<close> returns an error value or \<^verbatim>\<open>nil\<close> (\<open>None\<close>) together with the
  receiver as the call leaves it.
\<close>

definition Merge :: "BloomFilter \<Rightarrow> BloomFilter \<Rightarrow> panic + (error option \<times> BloomFilter)" where
  "Merge f g =
     (if bf_m f \<noteq> bf_m g then Inr (Some (MismatchM (bf_m f) (bf_m g)), f)
      else if bf_k f \<noteq> bf_k g then Inr (Some (MismatchK (bf_k f) (bf_k g)), f)
      else (case InPlaceUnion (bf_b f) (bf_b g) of
              Inl e \<Rightarrow> Inl e
            | Inr b' \<Rightarrow> Inr (None, f\<lparr>bf_b := b'\<rparr>)))"

definition ClearAll :: "BloomFilter \<Rightarrow> BloomFilter" where
  "ClearAll f = f\<lparr>bf_b := ClearAll_bs (bf_b f)\<rparr>"


section \<open>Binary form\<close>

text \<open>
  \<^verbatim>\<open>binary.Write(stream, binary.BigEndian, v)\<close> for a 64-bit \<^verbatim>\<open>v\<close> appends the eight
  bytes of \<^verbatim>\<open>BigEndian.PutUint64\<close>; \<^verbatim>\<open>binary.Read\<close> takes eight bytes with
  \<^verbatim>\<open>io.ReadFull\<close> (\<^verbatim>\<open>io.EOF\<close> when none is left, \<^verbatim>\<open>io.ErrUnexpectedEOF\<close> when
  fewer than eight are) and decodes them with \<^verbatim>\<open>BigEndian.Uint64\<close>. A stream is the
  list of its bytes: the writer is a buffer that takes every byte (\<^verbatim>\<open>bytes.Buffer\<close>,
  as \<^verbatim>\<open>MarshalBinary\<close> and \<^verbatim>\<open>GobEncode\<close> use it), the reader yields the bytes that
  are left.
\<close>

definition PutUint64 :: "u64 \<Rightarrow> byte list" where
  "PutUint64 v =
     [ucast (drop_bit 56 v), ucast (drop_bit 48 v), ucast (drop_bit 40 v), ucast (drop_bit 32 v),
      ucast (drop_bit 24 v), ucast (drop_bit 16 v), ucast (drop_bit 8 v), ucast v]"

definition Uint64 :: "byte list \<Rightarrow> u64" where
  "Uint64 b =
     ucast (b ! 7) OR push_bit 8 (ucast (b ! 6)) OR push_bit 16 (ucast (b ! 5)) OR
     push_bit 24 (ucast (b ! 4)) OR push_bit 32 (ucast (b ! 3)) OR push_bit 40 (ucast (b ! 2)) OR
     push_bit 48 (ucast (b ! 1)) OR push_bit 56 (ucast (b ! 0))"


definition binary_Read :: "byte list \<Rightarrow> error + (u64 \<times> byte list)" where
  "binary_Read stream =
     (if length stream = 0 then Inl EOF
      else if length stream < 8 then Inl ErrUnexpectedEOF
      else Inr (Uint64 (take 8 stream), drop 8 stream))"



text \<open>
  \<^verbatim>\<open>atomicBitSet.ReadFrom\<close> has three outcomes: it panics, it returns an error, or
  it returns the bit set, the byte count and the rest of the stream. On an error the
  byte count and the half-filled target that Go hands back beside it are left out.
\<close>

datatype 'a outcome = Panics panic | Fails error | Returns 'a

text \<open>
  The allocation \<^verbatim>\<open>make([]atomic.Int64, dataLen)\<close> runs before any word is read, with
  a length taken from the input. Go's \<^verbatim>\<open>makeslice\<close> panics (\<^verbatim>\<open>len out of range\<close>)
  when the length is negative as an \<^verbatim>\<open>int\<close>, that is from \<open>2\<^sup>6\<^sup>3\<close> on, or when the
  size in bytes, eight per word, overflows or exceeds the allocation limit of the
  platform. That limit is the parameter \<open>maxAlloc\<close>; it is below \<open>2\<^sup>6\<^sup>4\<close> on every
  platform, so a size that overflows exceeds it. An allocation that passes the check and
  finds no memory ends the program; the model leaves that out.
\<close>

definition makeslice_panics :: "nat \<Rightarrow> u64 \<Rightarrow> bool" where
  "makeslice_panics maxAlloc len \<longleftrightarrow> 2 ^ 63 \<le> unat len \<or> maxAlloc < 8 * unat len"

function ReadFrom_loop ::
  "u64 \<Rightarrow> u64 \<Rightarrow> byte list \<Rightarrow> u64 list \<Rightarrow> u64 \<Rightarrow> error + (u64 list \<times> u64 \<times> byte list)" where
  "ReadFrom_loop dataLen i stream dat totalBytes =
     (if i < dataLen then
        (case binary_Read stream of
           Inl e \<Rightarrow> Inl e
         | Inr (val, stream') \<Rightarrow>
             ReadFrom_loop dataLen (i + 1) stream' (dat[unat i := val]) (totalBytes + 8))
      else Inr (dat, totalBytes, stream))"
  by pat_completeness auto
termination
proof (relation "measure (\<lambda>(dataLen, i, stream, dat, totalBytes). unat dataLen - unat i)")
  show "wf (measure (\<lambda>(dataLen, i, stream, dat, totalBytes). unat dataLen - unat i))" by simp
next
  fix dataLen i :: u64 and s s' :: "byte list" and d d' :: "u64 list" and t t' :: u64
  assume lt: "i < dataLen"
  then have "unat i < unat dataLen" by (simp add: word_less_nat_alt)
  moreover have "unat dataLen < 2 ^ 64" using unsigned_less [of dataLen, where ?'a = nat] by simp
  ultimately have "unat (i + 1) = Suc (unat i)" by (simp add: unat_word_ariths)
  with \<open>unat i < unat dataLen\<close>
  show "((dataLen, i + 1, s', d', t'), dataLen, i, s, d, t)
          \<in> measure (\<lambda>(dataLen, i, stream, dat, totalBytes). unat dataLen - unat i)"
    by simp
qed

definition ReadFrom_bs :: "nat \<Rightarrow> byte list \<Rightarrow> (atomicBitSet \<times> u64 \<times> byte list) outcome" where
  "ReadFrom_bs maxAlloc stream =
     (case binary_Read stream of
        Inl e \<Rightarrow> Fails e
      | Inr (sz, stream) \<Rightarrow>
          (case binary_Read stream of
             Inl e \<Rightarrow> Fails e
           | Inr (dataLen, stream) \<Rightarrow>
               if makeslice_panics maxAlloc dataLen then Panics MakeSliceLenOutOfRange
               else
                 (case ReadFrom_loop dataLen 0 stream (replicate (unat dataLen) 0) (8 + 8) of
                    Inl e \<Rightarrow> Fails e
                  | Inr (dat, totalBytes, stream) \<Rightarrow>
                      Returns (\<lparr>bs_data = dat, bs_size = sz\<rparr>, totalBytes, stream))))"


definition ReadFrom :: "nat \<Rightarrow> byte list \<Rightarrow> (BloomFilter \<times> u64 \<times> byte list) outcome" where
  "ReadFrom maxAlloc stream =
     (case binary_Read stream of
        Inl e \<Rightarrow> Fails e
      | Inr (m, stream) \<Rightarrow>
          (case binary_Read stream of
             Inl e \<Rightarrow> Fails e
           | Inr (k, stream) \<Rightarrow>
               (case ReadFrom_bs maxAlloc stream of
                  Panics c \<Rightarrow> Panics c
                | Fails e \<Rightarrow> Fails e
                | Returns (b, numBytes, stream) \<Rightarrow>
                    Returns (\<lparr>bf_m = m, bf_k = k, bf_b = b\<rparr>, 8 + 8 + numBytes, stream))))"

section \<open>Representation invariant and sequences of calls\<close>

text \<open>
  The data model the operations rely on: a bit set holds exactly
  \<open>\<lceil>size / 64\<rceil>\<close> words, and a filter has \<open>m \<ge> 1\<close> and a bit set of \<open>m\<close>
  bits. \<open>bit_at\<close> reads bit \<open>i\<close> of a bit set that satisfies it.
\<close>

definition bitset_inv :: "atomicBitSet \<Rightarrow> bool" where
  "bitset_inv bs \<longleftrightarrow> length (bs_data bs) = (unat (bs_size bs) + 63) div 64"

definition filter_inv :: "BloomFilter \<Rightarrow> bool" where
  "filter_inv f \<longleftrightarrow> bf_m f \<noteq> 0 \<and> bs_size (bf_b f) = bf_m f \<and> bitset_inv (bf_b f)"

definition bit_at :: "atomicBitSet \<Rightarrow> u64 \<Rightarrow> bool" where
  "bit_at bs i \<longleftrightarrow> i < bs_size bs \<and> bit (bs_data bs ! unat (i div 64)) (unat (i mod 64))"

text \<open>
  The probe formula as the specification writes it, over the natural numbers:
  \<open>h[i % 2] + i * h[2 + (((i + (i % 2)) % 4) / 2)]\<close>, reduced modulo \<open>2\<^sup>6\<^sup>4\<close>.
\<close>

definition location_spec :: "nat list \<Rightarrow> nat \<Rightarrow> nat" where
  "location_spec h i = (h ! (i mod 2) + i * h ! (2 + (((i + (i mod 2)) mod 4) div 2))) mod 2 ^ 64"

text \<open>
  A caller's sequence of mutating calls on one filter. A call of \<^verbatim>\<open>Merge\<close> that
  returns an error leaves the filter as it was, and the sequence goes on.
\<close>

datatype op = OpAdd "byte list" | OpTestAndAdd "byte list" | OpTestOrAdd "byte list" | OpMerge BloomFilter

fun apply_op :: "(byte list \<Rightarrow> hashes) \<Rightarrow> BloomFilter \<Rightarrow> op \<Rightarrow> panic + BloomFilter" where
  "apply_op baseHashes f (OpAdd dat) = Add baseHashes f dat"
| "apply_op baseHashes f (OpTestAndAdd dat) =
     (case TestAndAdd baseHashes f dat of Inl e \<Rightarrow> Inl e | Inr (present, f') \<Rightarrow> Inr f')"
| "apply_op baseHashes f (OpTestOrAdd dat) =
     (case TestOrAdd baseHashes f dat of Inl e \<Rightarrow> Inl e | Inr (present, f') \<Rightarrow> Inr f')"
| "apply_op baseHashes f (OpMerge g) =
     (case Merge f g of Inl e \<Rightarrow> Inl e | Inr (err, f') \<Rightarrow> Inr f')"

fun apply_ops :: "(byte list \<Rightarrow> hashes) \<Rightarrow> BloomFilter \<Rightarrow> op list \<Rightarrow> panic + BloomFilter" where
  "apply_ops baseHashes f [] = Inr f"
| "apply_ops baseHashes f (c # cs) =
     (case apply_op baseHashes f c of Inl e \<Rightarrow> Inl e | Inr f' \<Rightarrow> apply_ops baseHashes f' cs)"

text \<open>
  \<open>grows f f'\<close>: \<open>f'\<close> is a later state of \<open>f\<close> with the same parameters, holding
  every bit of \<open>f\<close>.
\<close>

definition grows :: "BloomFilter \<Rightarrow> BloomFilter \<Rightarrow> bool" where
  "grows f f' \<longleftrightarrow> filter_inv f' \<and> bf_m f' = bf_m f \<and> bf_k f' = bf_k f \<and>
     (\<forall>p. bit_at (bf_b f) p \<longrightarrow> bit_at (bf_b f') p)"

text \<open>Every filter merged in along the sequence satisfies the invariant.\<close>

fun ops_ok :: "op list \<Rightarrow> bool" where
  "ops_ok [] = True"
| "ops_ok (OpMerge g # cs) = (filter_inv g \<and> ops_ok cs)"
| "ops_ok (c # cs) = ops_ok cs"

declare Add_loop.simps [simp del] Test_loop.simps [simp del] TestAndAdd_loop.simps [simp del]
  TestOrAdd_loop.simps [simp del] ReadFrom_loop.simps [simp del]

section \<open>The bit set under its invariant\<close>

lemma mask_or_id:
  assumes "(w :: u64) AND push_bit n 1 \<noteq> 0"
  shows "w OR push_bit n 1 = w"
proof -
  from assms have "bit w n" by (simp add: bit_iff_and_push_bit_not_eq_0)
  then show ?thesis by (intro bit_eqI) (auto simp: bit_simps)
qed

lemma inv_index:
  assumes "bitset_inv bs" "i < bs_size bs"
  shows "unat (i div 64) < length (bs_data bs)"
proof -
  from assms(2) have "unat i < unat (bs_size bs)" by (simp add: word_less_nat_alt)
  then have "unat i div 64 < (unat (bs_size bs) + 63) div 64" by arith
  with assms(1) show ?thesis by (simp add: bitset_inv_def unat_div)
qed

lemma Test_bs_inv: "bitset_inv bs \<Longrightarrow> Test_bs bs i = Inr (bit_at bs i)"
  by (auto simp: Test_bs_def bit_at_def Let_def inv_index not_le bit_iff_and_push_bit_not_eq_0)

lemma word_div_mod_eq:
  fixes i j :: u64
  assumes "i div 64 = j div 64" "i mod 64 = j mod 64"
  shows "i = j"
  by (metis assms div_mult_mod_eq)

lemma Set_bs_inv:
  assumes "bitset_inv bs"
  shows "\<exists>bs'. Set_bs bs i = Inr bs' \<and> bitset_inv bs' \<and> bs_size bs' = bs_size bs \<and>
           (\<forall>j. bit_at bs' j \<longleftrightarrow> bit_at bs j \<or> (j = i \<and> i < bs_size bs))"
proof (cases "i < bs_size bs")
  case False
  then show ?thesis using assms by (auto simp: Set_bs_def not_less)
next
  case True
  let ?ix = "unat (i div 64)"
  let ?w = "bs_data bs ! ?ix OR push_bit (unat (i mod 64)) 1"
  let ?bs' = "bs\<lparr>bs_data := (bs_data bs)[?ix := ?w]\<rparr>"
  have ix: "?ix < length (bs_data bs)" using assms True by (rule inv_index)
  have set: "Set_bs bs i = Inr ?bs'" using True ix by (simp add: Set_bs_def Let_def not_le)
  have inv: "bitset_inv ?bs'" using assms by (simp add: bitset_inv_def)
  have pos: "unat (i mod 64) < 64" by (simp add: unat_mod)
  have bits: "bit_at ?bs' j \<longleftrightarrow> bit_at bs j \<or> j = i" for j
  proof (cases "j < bs_size bs")
    case False
    with True show ?thesis by (auto simp: bit_at_def)
  next
    case j: True
    show ?thesis
    proof (cases "j div 64 = i div 64")
      case same: True
      have "j = i \<longleftrightarrow> unat (j mod 64) = unat (i mod 64)"
      proof
        assume "j = i" then show "unat (j mod 64) = unat (i mod 64)" by simp
      next
        assume "unat (j mod 64) = unat (i mod 64)"
        then have "j mod 64 = i mod 64" by (simp add: word_unat_eq_iff)
        with same show "j = i" by (rule word_div_mod_eq)
      qed
      then show ?thesis using j same ix pos
        by (auto simp: bit_at_def bit_simps)
    next
      case diff: False
      then have "unat (j div 64) \<noteq> ?ix" by (simp add: word_unat_eq_iff)
      moreover from diff have "j \<noteq> i" by auto
      ultimately show ?thesis using j by (simp add: bit_at_def)
    qed
  qed
  show ?thesis using set inv bits True by (intro exI [of _ ?bs']) simp
qed

section \<open>The loops under the invariant\<close>

lemma unat_inc:
  fixes i k :: u64
  assumes "i < k"
  shows "unat (i + 1) = Suc (unat i)"
proof -
  from assms have "unat i < unat k" by (simp add: word_less_nat_alt)
  moreover have "unat k < 2 ^ 64" using unsigned_less [of k, where ?'a = nat] by simp
  ultimately show ?thesis by (simp add: unat_word_ariths)
qed

lemma word_le_step:
  fixes i j k :: u64
  assumes "i < k"
  shows "i \<le> j \<longleftrightarrow> j = i \<or> i + 1 \<le> j"
  using unat_inc [OF assms] by (auto simp: word_le_nat_alt word_unat_eq_iff)

lemma location_ok:
  "filter_inv f \<Longrightarrow> BloomFilter_location f h i = Inr (location h i mod bf_m f)"
  by (simp add: BloomFilter_location_def filter_inv_def)

lemma probe_in_range:
  assumes "filter_inv f"
  shows "location h i mod bf_m f < bs_size (bf_b f)"
proof -
  from assms have "bf_m f \<noteq> 0" and "bs_size (bf_b f) = bf_m f" by (simp_all add: filter_inv_def)
  then show ?thesis by (simp add: word_less_nat_alt unat_mod unat_gt_0)
qed

lemma Test_loop_inv:
  "filter_inv f \<Longrightarrow>
   Test_loop f h i = Inr (\<forall>j. i \<le> j \<and> j < bf_k f \<longrightarrow> bit_at (bf_b f) (location h j mod bf_m f))"
proof (induction f h i rule: Test_loop.induct)
  case (1 f h i)
  let ?P = "\<lambda>j. bit_at (bf_b f) (location h j mod bf_m f)"
  from "1.prems" have bs: "bitset_inv (bf_b f)" by (simp add: filter_inv_def)
  show ?case
  proof (cases "i < bf_k f")
    case False
    then have "\<And>j. i \<le> j \<Longrightarrow> \<not> j < bf_k f" by auto
    with False show ?thesis by (subst Test_loop.simps) auto
  next
    case lt: True
    note loc = location_ok [OF "1.prems", of h i]
    note tst = Test_bs_inv [OF bs, of "location h i mod bf_m f"]
    show ?thesis
    proof (cases "?P i")
      case False
      with lt have "\<not> (\<forall>j. i \<le> j \<and> j < bf_k f \<longrightarrow> ?P j)" by auto
      with lt loc tst False show ?thesis by (subst Test_loop.simps) simp
    next
      case True
      have "Test_loop f h (i + 1) = Inr (\<forall>j. i + 1 \<le> j \<and> j < bf_k f \<longrightarrow> ?P j)"
        using "1.IH" [OF lt loc tst _ "1.prems"] True by simp
      moreover have "(\<forall>j. i \<le> j \<and> j < bf_k f \<longrightarrow> ?P j) \<longleftrightarrow> (\<forall>j. i + 1 \<le> j \<and> j < bf_k f \<longrightarrow> ?P j)"
        using True word_le_step [OF lt] by auto
      ultimately show ?thesis using lt loc tst True by (subst Test_loop.simps) simp
    qed
  qed
qed

lemma Add_loop_inv:
  "filter_inv f \<Longrightarrow>
   \<exists>f'. Add_loop f h i = Inr f' \<and> filter_inv f' \<and> bf_m f' = bf_m f \<and> bf_k f' = bf_k f \<and>
     (\<forall>p. bit_at (bf_b f') p \<longleftrightarrow>
            bit_at (bf_b f) p \<or> (\<exists>j. i \<le> j \<and> j < bf_k f \<and> p = location h j mod bf_m f))"
proof (induction f h i rule: Add_loop.induct)
  case (1 f h i)
  from "1.prems" have bs: "bitset_inv (bf_b f)" by (simp add: filter_inv_def)
  show ?case
  proof (cases "i < bf_k f")
    case False
    then have "\<And>j. i \<le> j \<Longrightarrow> \<not> j < bf_k f" by auto
    with False "1.prems" show ?thesis by (subst Add_loop.simps) auto
  next
    case lt: True
    let ?l = "location h i mod bf_m f"
    note loc = location_ok [OF "1.prems", of h i]
    from Set_bs_inv [OF bs, of ?l] probe_in_range [OF "1.prems", of h i]
    obtain b' where set: "Set_bs (bf_b f) ?l = Inr b'" and inv': "bitset_inv b'"
      and sz: "bs_size b' = bs_size (bf_b f)"
      and bits: "\<And>j. bit_at b' j \<longleftrightarrow> bit_at (bf_b f) j \<or> j = ?l"
      by auto
    let ?f1 = "f\<lparr>bf_b := b'\<rparr>"
    have inv1: "filter_inv ?f1" using "1.prems" inv' sz by (simp add: filter_inv_def)
    from "1.IH" [OF lt loc set inv1]
    obtain f' where run: "Add_loop ?f1 h (i + 1) = Inr f'" and finv: "filter_inv f'"
      and m: "bf_m f' = bf_m f" and k: "bf_k f' = bf_k f"
      and fbits: "\<And>p. bit_at (bf_b f') p \<longleftrightarrow>
            bit_at b' p \<or> (\<exists>j. i + 1 \<le> j \<and> j < bf_k f \<and> p = location h j mod bf_m f)"
      by auto
    have "Add_loop f h i = Inr f'" using lt loc set run by (subst Add_loop.simps) simp
    moreover have "bit_at (bf_b f') p \<longleftrightarrow>
            bit_at (bf_b f) p \<or> (\<exists>j. i \<le> j \<and> j < bf_k f \<and> p = location h j mod bf_m f)" for p
      unfolding fbits bits using word_le_step [OF lt] lt by auto
    ultimately show ?thesis using finv m k by blast
  qed
qed

lemma TestAndAdd_loop_inv:
  "filter_inv f \<Longrightarrow>
   \<exists>f'. Add_loop f h i = Inr f' \<and>
     TestAndAdd_loop f h i present =
       Inr (present \<and> (\<forall>j. i \<le> j \<and> j < bf_k f \<longrightarrow> bit_at (bf_b f) (location h j mod bf_m f)), f')"
proof (induction f h i present rule: TestAndAdd_loop.induct)
  case (1 f h i present)
  let ?P = "\<lambda>j. bit_at (bf_b f) (location h j mod bf_m f)"
  from "1.prems" have bs: "bitset_inv (bf_b f)" by (simp add: filter_inv_def)
  show ?case
  proof (cases "i < bf_k f")
    case False
    then have "\<And>j. i \<le> j \<Longrightarrow> \<not> j < bf_k f" by auto
    with False show ?thesis by (subst Add_loop.simps, subst TestAndAdd_loop.simps) auto
  next
    case lt: True
    let ?l = "location h i mod bf_m f"
    note loc = location_ok [OF "1.prems", of h i]
    note tst = Test_bs_inv [OF bs, of ?l]
    from Set_bs_inv [OF bs, of ?l] probe_in_range [OF "1.prems", of h i]
    obtain b' where set: "Set_bs (bf_b f) ?l = Inr b'" and inv': "bitset_inv b'"
      and sz: "bs_size b' = bs_size (bf_b f)"
      and bits: "\<And>j. bit_at b' j \<longleftrightarrow> bit_at (bf_b f) j \<or> j = ?l"
      by auto
    let ?f1 = "f\<lparr>bf_b := b'\<rparr>"
    let ?p1 = "if \<not> ?P i then False else present"
    have inv1: "filter_inv ?f1" using "1.prems" inv' sz by (simp add: filter_inv_def)
    from "1.IH" [OF lt loc tst set inv1]
    obtain f' where run: "Add_loop ?f1 h (i + 1) = Inr f'"
      and res: "TestAndAdd_loop ?f1 h (i + 1) ?p1 =
          Inr (?p1 \<and> (\<forall>j. i + 1 \<le> j \<and> j < bf_k f \<longrightarrow> bit_at b' (location h j mod bf_m f)), f')"
      by auto
    have add: "Add_loop f h i = Inr f'" using lt loc set run by (subst Add_loop.simps) simp
    have "(?p1 \<and> (\<forall>j. i + 1 \<le> j \<and> j < bf_k f \<longrightarrow> bit_at b' (location h j mod bf_m f)))
        \<longleftrightarrow> (present \<and> (\<forall>j. i \<le> j \<and> j < bf_k f \<longrightarrow> ?P j))"
      unfolding bits using word_le_step [OF lt] lt by auto
    with res have "TestAndAdd_loop f h i present =
        Inr (present \<and> (\<forall>j. i \<le> j \<and> j < bf_k f \<longrightarrow> ?P j), f')"
      using lt loc tst set by (subst TestAndAdd_loop.simps) simp
    with add show ?thesis by blast
  qed
qed

section \<open>Out-of-range indices (C8)\<close>

lemma Set_Test_out_of_range:
  "bs_size bs \<le> i \<Longrightarrow> Set_bs bs i = Inr bs \<and> Test_bs bs i = Inr False"
  by (simp add: Set_bs_def Test_bs_def)

text \<open>
  Claim C8, as the code has it. On a bit set that holds \<open>\<lceil>size / 64\<rceil>\<close> words,
  \<^verbatim>\<open>Set(i)\<close> and \<^verbatim>\<open>Test(i)\<close> return for every index \<open>i\<close>, without a panic: for
  \<open>i \<ge> size\<close> \<^verbatim>\<open>Set\<close> leaves the bit set as it is and \<^verbatim>\<open>Test\<close> returns false,
  and for \<open>i < size\<close> the word index \<open>i / 64\<close> is below the length of the word array.
  The behaviour at \<open>i \<ge> size\<close> needs no invariant (lemma \<open>Set_Test_out_of_range\<close>).
\<close>

theorem Set_Test_never_panic:
  assumes "bitset_inv bs"
  shows "(\<exists>bs'. Set_bs bs i = Inr bs') \<and> (\<exists>t. Test_bs bs i = Inr t) \<and>
         (if bs_size bs \<le> i then Set_bs bs i = Inr bs \<and> Test_bs bs i = Inr False
          else unat (i div 64) < length (bs_data bs))"
proof -
  from assms obtain bs' where "Set_bs bs i = Inr bs'" using Set_bs_inv by blast
  moreover from assms have "Test_bs bs i = Inr (bit_at bs i)" by (rule Test_bs_inv)
  moreover have "unat (i div 64) < length (bs_data bs)" if "\<not> bs_size bs \<le> i"
    using assms that by (simp add: inv_index not_le)
  ultimately show ?thesis using Set_Test_out_of_range [of bs i] by auto
qed

theorem Set_Test_never_panic_witness:
  "bitset_inv (newAtomicBitSet 70) \<and>
   Set_bs (newAtomicBitSet 70) 69 = Inr \<lparr>bs_data = [0, 32], bs_size = 70\<rparr> \<and>
   Test_bs (newAtomicBitSet 70) 69 = Inr False \<and>
   Set_bs (newAtomicBitSet 70) 70 = Inr (newAtomicBitSet 70) \<and>
   Test_bs (newAtomicBitSet 70) 70 = Inr False"
proof -
  have inv: "bitset_inv (newAtomicBitSet 70)"
    by (simp add: bitset_inv_def newAtomicBitSet_def)
  have two: "replicate 2 (0 :: u64) = [0, 0]" by (simp add: numeral_2_eq_2)
  show ?thesis
    using inv Set_Test_never_panic [OF inv, of 69] Set_Test_never_panic [OF inv, of 70]
    by (simp add: newAtomicBitSet_def Set_bs_def Test_bs_def two)
qed

section \<open>TestOrAdd against TestAndAdd (C10)\<close>

lemma Test_true_Set_id:
  assumes "Test_bs bs l = Inr True"
  shows "Set_bs bs l = Inr bs"
proof (cases "bs_size bs \<le> l")
  case True
  then show ?thesis by (simp add: Set_bs_def)
next
  case False
  with assms have ix: "unat (l div 64) < length (bs_data bs)"
    and nz: "bs_data bs ! unat (l div 64) AND push_bit (unat (l mod 64)) 1 \<noteq> 0"
    by (auto simp: Test_bs_def Let_def split: if_splits)
  from nz have "bs_data bs ! unat (l div 64) OR push_bit (unat (l mod 64)) 1 = bs_data bs ! unat (l div 64)"
    by (rule mask_or_id)
  with False ix show ?thesis by (simp add: Set_bs_def Let_def)
qed

lemma TestOrAdd_loop_eq: "TestOrAdd_loop f h i present = TestAndAdd_loop f h i present"
proof (induction f h i present rule: TestOrAdd_loop.induct)
  case (1 f h i present)
  show ?case
  proof (cases "i < bf_k f")
    case False
    then show ?thesis by (simp add: TestOrAdd_loop.simps TestAndAdd_loop.simps)
  next
    case lt: True
    show ?thesis
    proof (cases "BloomFilter_location f h i")
      case (Inl e)
      with lt show ?thesis
        by (subst TestOrAdd_loop.simps, subst TestAndAdd_loop.simps) simp
    next
      case loc: (Inr l)
      show ?thesis
      proof (cases "Test_bs (bf_b f) l")
        case (Inl e)
        with lt loc show ?thesis
          by (subst TestOrAdd_loop.simps, subst TestAndAdd_loop.simps) simp
      next
        case t: (Inr t)
        show ?thesis
        proof (cases t)
          case True
          with t have "Set_bs (bf_b f) l = Inr (bf_b f)" by (simp add: Test_true_Set_id)
          moreover have "TestOrAdd_loop f h (i + 1) present = TestAndAdd_loop f h (i + 1) present"
            using "1.IH"(2) [OF lt loc t] True by simp
          ultimately show ?thesis using lt loc t True
            by (subst TestOrAdd_loop.simps, subst TestAndAdd_loop.simps) simp
        next
          case False
          show ?thesis
          proof (cases "Set_bs (bf_b f) l")
            case (Inl e)
            with lt loc t False show ?thesis
              by (subst TestOrAdd_loop.simps, subst TestAndAdd_loop.simps) simp
          next
            case (Inr b')
            with lt loc t False "1.IH"(1) [OF lt loc t _ Inr] show ?thesis
              by (subst TestOrAdd_loop.simps, subst TestAndAdd_loop.simps) simp
          qed
        qed
      qed
    qed
  qed
qed

text \<open>
  Claim C10. For a single caller \<^verbatim>\<open>TestOrAdd\<close> and \<^verbatim>\<open>TestAndAdd\<close> are the same
  function of the filter and the key: the same boolean and the same final filter, and
  the same panic where one panics. No invariant is needed.
\<close>

theorem TestOrAdd_eq_TestAndAdd:
  "TestOrAdd baseHashes f dat = TestAndAdd baseHashes f dat"
  by (simp add: TestOrAdd_def TestAndAdd_def TestOrAdd_loop_eq)

section \<open>TestAndAdd (C6)\<close>

text \<open>
  Claim C6, as the code has it. On a filter that satisfies the invariant, for a single caller,
  \<^verbatim>\<open>TestAndAdd(x)\<close> returns, and the boolean it returns is the one that \<^verbatim>\<open>Test(x)\<close>
  returns on the filter as it was before the call; afterwards each of the \<open>k\<close> probe
  positions of \<open>x\<close> tests set in the bit set, and \<^verbatim>\<open>Test(x)\<close> returns true, whatever
  the filter held before. \<open>m\<close>, \<open>k\<close> and the invariant are kept.
\<close>

theorem TestAndAdd_spec:
  assumes "filter_inv f"
  shows "\<exists>present f'.
           TestAndAdd baseHashes f dat = Inr (present, f') \<and>
           Test baseHashes f dat = Inr present \<and>
           (\<forall>j. j < bf_k f \<longrightarrow>
              (\<exists>l. BloomFilter_location f' (baseHashes dat) j = Inr l \<and> Test_bs (bf_b f') l = Inr True)) \<and>
           Test baseHashes f' dat = Inr True \<and>
           bf_m f' = bf_m f \<and> bf_k f' = bf_k f \<and> filter_inv f'"
proof -
  let ?h = "baseHashes dat"
  let ?all = "\<forall>j. 0 \<le> j \<and> j < bf_k f \<longrightarrow> bit_at (bf_b f) (location ?h j mod bf_m f)"
  from TestAndAdd_loop_inv [OF assms, of ?h 0 True]
  obtain f' where add: "Add_loop f ?h 0 = Inr f'"
    and taa: "TestAndAdd_loop f ?h 0 True = Inr (True \<and> ?all, f')"
    by blast
  from Add_loop_inv [OF assms, of ?h 0] add
  have inv': "filter_inv f'" and m: "bf_m f' = bf_m f" and k: "bf_k f' = bf_k f"
    and bits: "\<And>p. bit_at (bf_b f') p \<longleftrightarrow>
          bit_at (bf_b f) p \<or> (\<exists>j. 0 \<le> j \<and> j < bf_k f \<and> p = location ?h j mod bf_m f)"
    by auto
  from inv' have bs': "bitset_inv (bf_b f')" by (simp add: filter_inv_def)
  have set: "bit_at (bf_b f') (location ?h j mod bf_m f')" if "j < bf_k f" for j
    using that bits m by auto
  have 1: "TestAndAdd baseHashes f dat = Inr (?all, f')"
    using taa by (simp add: TestAndAdd_def)
  have 2: "Test baseHashes f dat = Inr ?all"
    using Test_loop_inv [OF assms, of ?h 0] by (simp add: Test_def)
  have 3: "\<exists>l. BloomFilter_location f' ?h j = Inr l \<and> Test_bs (bf_b f') l = Inr True"
    if "j < bf_k f" for j
    using set [OF that] location_ok [OF inv', of ?h j] Test_bs_inv [OF bs'] by simp
  have 4: "Test baseHashes f' dat = Inr True"
    using Test_loop_inv [OF inv', of ?h 0] set k by (simp add: Test_def)
  from 1 2 3 4 m k inv' show ?thesis by blast
qed

theorem TestAndAdd_spec_witness:
  "filter_inv (New 10 2) \<and>
   TestAndAdd (\<lambda>d. (of_nat (length d), 3, 5, 7)) (New 10 2) [1, 2] =
     Inr (False, \<lparr>bf_m = 10, bf_k = 2, bf_b = \<lparr>bs_data = [5], bs_size = 10\<rparr>\<rparr>) \<and>
   Test (\<lambda>d. (of_nat (length d), 3, 5, 7)) (New 10 2) [1, 2] = Inr False \<and>
   Test (\<lambda>d. (of_nat (length d), 3, 5, 7))
     \<lparr>bf_m = 10, bf_k = 2, bf_b = \<lparr>bs_data = [5], bs_size = 10\<rparr>\<rparr> [1, 2] = Inr True"
proof -
  have new: "New 10 2 = \<lparr>bf_m = 10, bf_k = 2, bf_b = \<lparr>bs_data = [0], bs_size = 10\<rparr>\<rparr>"
    by (simp add: New_def max_uint_def newAtomicBitSet_def)
  have inv: "filter_inv (New 10 2)"
    by (simp add: new filter_inv_def bitset_inv_def)
  have run: "TestAndAdd (\<lambda>d. (of_nat (length d), 3, 5, 7)) (New 10 2) [1, 2] =
     Inr (False, \<lparr>bf_m = 10, bf_k = 2, bf_b = \<lparr>bs_data = [5], bs_size = 10\<rparr>\<rparr>)"
    by (simp add: new TestAndAdd_def TestAndAdd_loop.simps BloomFilter_location_def location_def
        Test_bs_def Set_bs_def)
  show ?thesis
    using inv run TestAndAdd_spec [OF inv, of "\<lambda>d. (of_nat (length d), 3, 5, 7)" "[1, 2]"]
    by auto
qed

section \<open>Merge and monotonicity\<close>

lemma union_words_eq:
  "length xs \<le> length ys \<Longrightarrow> union_words xs ys = Inr (map2 (OR) xs ys)"
  by (induction xs ys rule: union_words.induct) auto

lemma Merge_inv:
  assumes f: "filter_inv f" and g: "filter_inv g"
    and m: "bf_m f = bf_m g" and k: "bf_k f = bf_k g"
  shows "\<exists>f'. Merge f g = Inr (None, f') \<and> filter_inv f' \<and> bf_m f' = bf_m f \<and> bf_k f' = bf_k f \<and>
           bs_data (bf_b f') = map2 (OR) (bs_data (bf_b f)) (bs_data (bf_b g)) \<and>
           (\<forall>p. bit_at (bf_b f') p \<longleftrightarrow> bit_at (bf_b f) p \<or> bit_at (bf_b g) p)"
proof -
  let ?zs = "map2 (OR) (bs_data (bf_b f)) (bs_data (bf_b g))"
  let ?f' = "f\<lparr>bf_b := (bf_b f)\<lparr>bs_data := ?zs\<rparr>\<rparr>"
  from f g m have sz: "bs_size (bf_b f) = bs_size (bf_b g)"
    and len: "length (bs_data (bf_b f)) = length (bs_data (bf_b g))"
    and bf: "bitset_inv (bf_b f)" and bg: "bitset_inv (bf_b g)"
    by (simp_all add: filter_inv_def bitset_inv_def)
  have "union_words (bs_data (bf_b f)) (bs_data (bf_b g)) = Inr ?zs"
    using len by (simp add: union_words_eq)
  then have run: "Merge f g = Inr (None, ?f')"
    using m k by (simp add: Merge_def InPlaceUnion_def)
  have inv: "filter_inv ?f'" using f len by (simp add: filter_inv_def bitset_inv_def)
  have bits: "bit_at (bf_b ?f') p \<longleftrightarrow> bit_at (bf_b f) p \<or> bit_at (bf_b g) p" for p
  proof (cases "p < bs_size (bf_b f)")
    case False
    with sz show ?thesis by (simp add: bit_at_def)
  next
    case True
    then have "unat (p div 64) < length (bs_data (bf_b f))" using bf by (simp add: inv_index)
    with True sz len show ?thesis by (simp add: bit_at_def bit_or_iff)
  qed
  show ?thesis using run inv bits by (intro exI [of _ ?f']) simp
qed

lemma grows_refl: "filter_inv f \<Longrightarrow> grows f f"
  by (simp add: grows_def)

lemma grows_trans: "grows f g \<Longrightarrow> grows g h \<Longrightarrow> grows f h"
  by (simp add: grows_def)

lemma Add_grows:
  assumes "filter_inv f"
  shows "\<exists>f'. Add baseHashes f dat = Inr f' \<and> grows f f'"
  using Add_loop_inv [OF assms, of "baseHashes dat" 0] by (auto simp: Add_def grows_def)

lemma TestAndAdd_grows:
  assumes "filter_inv f"
  shows "\<exists>present f'. TestAndAdd baseHashes f dat = Inr (present, f') \<and> grows f f'"
  using TestAndAdd_loop_inv [OF assms, of "baseHashes dat" 0 True]
    Add_loop_inv [OF assms, of "baseHashes dat" 0]
  by (auto simp: TestAndAdd_def grows_def)

lemma Merge_grows:
  assumes "filter_inv f" "filter_inv g"
  shows "\<exists>err f'. Merge f g = Inr (err, f') \<and> grows f f'"
proof (cases "bf_m f = bf_m g \<and> bf_k f = bf_k g")
  case True
  with Merge_inv [OF assms] show ?thesis by (auto simp: grows_def)
next
  case False
  then show ?thesis using assms(1) by (auto simp: Merge_def grows_refl)
qed

lemma apply_op_grows:
  assumes "filter_inv f" "ops_ok [c]"
  shows "\<exists>f'. apply_op baseHashes f c = Inr f' \<and> grows f f'"
proof (cases c)
  case (OpAdd dat)
  with Add_grows [OF assms(1)] show ?thesis by simp
next
  case (OpTestAndAdd dat)
  with TestAndAdd_grows [OF assms(1), of baseHashes dat] show ?thesis by auto
next
  case (OpTestOrAdd dat)
  with TestAndAdd_grows [OF assms(1), of baseHashes dat] show ?thesis
    by (auto simp: TestOrAdd_def TestAndAdd_def TestOrAdd_loop_eq)
next
  case (OpMerge g)
  with assms(2) have "filter_inv g" by simp
  from Merge_grows [OF assms(1) this] OpMerge show ?thesis by auto
qed

lemma ops_ok_Cons: "ops_ok (c # cs) \<longleftrightarrow> ops_ok [c] \<and> ops_ok cs"
  by (cases c) simp_all

lemma apply_ops_grows:
  "filter_inv f \<Longrightarrow> ops_ok cs \<Longrightarrow> \<exists>f'. apply_ops baseHashes f cs = Inr f' \<and> grows f f'"
proof (induction cs arbitrary: f)
  case Nil
  then show ?case by (simp add: grows_refl)
next
  case (Cons c cs)
  from Cons.prems(2) have c: "ops_ok [c]" and cs: "ops_ok cs"
    using ops_ok_Cons [of c cs] by simp_all
  from apply_op_grows [OF Cons.prems(1) c]
  obtain f1 where 1: "apply_op baseHashes f c = Inr f1" and g1: "grows f f1" by blast
  from g1 have "filter_inv f1" by (simp add: grows_def)
  from Cons.IH [OF this cs]
  obtain f2 where 2: "apply_ops baseHashes f1 cs = Inr f2" and g2: "grows f1 f2" by blast
  from 1 2 grows_trans [OF g1 g2] show ?case by simp
qed

lemma Test_grows:
  assumes "grows f f'" "filter_inv f" "Test baseHashes f dat = Inr True"
  shows "Test baseHashes f' dat = Inr True"
proof -
  from assms(1) have inv': "filter_inv f'" and m: "bf_m f' = bf_m f" and k: "bf_k f' = bf_k f"
    and le: "\<And>p. bit_at (bf_b f) p \<Longrightarrow> bit_at (bf_b f') p"
    by (simp_all add: grows_def)
  from assms(3) Test_loop_inv [OF assms(2), of "baseHashes dat" 0]
  have "\<forall>j. 0 \<le> j \<and> j < bf_k f \<longrightarrow> bit_at (bf_b f) (location (baseHashes dat) j mod bf_m f)"
    by (simp add: Test_def)
  with le m k have "\<forall>j. 0 \<le> j \<and> j < bf_k f' \<longrightarrow> bit_at (bf_b f') (location (baseHashes dat) j mod bf_m f')"
    by simp
  with Test_loop_inv [OF inv', of "baseHashes dat" 0] show ?thesis by (simp add: Test_def)
qed

lemma Test_bs_grows:
  assumes "grows f f'" "filter_inv f" "Test_bs (bf_b f) i = Inr True"
  shows "Test_bs (bf_b f') i = Inr True"
  using assms Test_bs_inv [of "bf_b f" i] Test_bs_inv [of "bf_b f'" i]
  by (simp add: grows_def filter_inv_def)

lemma Add_then_Test:
  assumes "filter_inv f"
  shows "\<exists>f'. Add baseHashes f dat = Inr f' \<and> grows f f' \<and> Test baseHashes f' dat = Inr True"
proof -
  let ?h = "baseHashes dat"
  from Add_loop_inv [OF assms, of ?h 0]
  obtain f' where add: "Add_loop f ?h 0 = Inr f'" and inv': "filter_inv f'"
    and m: "bf_m f' = bf_m f" and k: "bf_k f' = bf_k f"
    and bits: "\<And>p. bit_at (bf_b f') p \<longleftrightarrow>
          bit_at (bf_b f) p \<or> (\<exists>j. 0 \<le> j \<and> j < bf_k f \<and> p = location ?h j mod bf_m f)"
    by blast
  have "Test baseHashes f' dat = Inr True"
    using Test_loop_inv [OF inv', of ?h 0] bits m k by (auto simp: Test_def)
  moreover have "grows f f'" using inv' m k bits by (simp add: grows_def)
  ultimately show ?thesis using add by (auto simp: Add_def)
qed

section \<open>No false negatives (C1)\<close>

text \<open>
  Claim C1, as the code has it. On a filter that satisfies the invariant, \<^verbatim>\<open>Add(x)\<close> returns and
  \<^verbatim>\<open>Test(x)\<close> is true afterwards, and it is still true after any further sequence of
  \<^verbatim>\<open>Add\<close>, \<^verbatim>\<open>TestAndAdd\<close>, \<^verbatim>\<open>TestOrAdd\<close> and \<^verbatim>\<open>Merge\<close> calls (with any keys,
  and any merged filters that satisfy the invariant, whether or not their parameters
  match); none of these calls panics. Every bit that tests set stays set: from the
  filter before \<^verbatim>\<open>Add\<close> to the one after, and from there to the end of the sequence.
\<close>

theorem Add_no_false_negative:
  assumes "filter_inv f" "ops_ok cs"
  shows "\<exists>f1 f2.
           Add baseHashes f x = Inr f1 \<and> Test baseHashes f1 x = Inr True \<and>
           apply_ops baseHashes f1 cs = Inr f2 \<and> Test baseHashes f2 x = Inr True \<and>
           (\<forall>i. Test_bs (bf_b f) i = Inr True \<longrightarrow> Test_bs (bf_b f1) i = Inr True) \<and>
           (\<forall>i. Test_bs (bf_b f1) i = Inr True \<longrightarrow> Test_bs (bf_b f2) i = Inr True)"
proof -
  from Add_then_Test [OF assms(1), of baseHashes x]
  obtain f1 where add: "Add baseHashes f x = Inr f1" and g1: "grows f f1"
    and t1: "Test baseHashes f1 x = Inr True" by blast
  from g1 have inv1: "filter_inv f1" by (simp add: grows_def)
  from apply_ops_grows [OF inv1 assms(2), of baseHashes]
  obtain f2 where run: "apply_ops baseHashes f1 cs = Inr f2" and g2: "grows f1 f2" by blast
  have t2: "Test baseHashes f2 x = Inr True" using g2 inv1 t1 by (rule Test_grows)
  have b1: "\<forall>i. Test_bs (bf_b f) i = Inr True \<longrightarrow> Test_bs (bf_b f1) i = Inr True"
    using Test_bs_grows [OF g1 assms(1)] by blast
  have b2: "\<forall>i. Test_bs (bf_b f1) i = Inr True \<longrightarrow> Test_bs (bf_b f2) i = Inr True"
    using Test_bs_grows [OF g2 inv1] by blast
  from add t1 run t2 b1 b2 show ?thesis by blast
qed

theorem Add_no_false_negative_witness:
  "filter_inv (New 10 2) \<and>
   ops_ok [OpTestOrAdd [7], OpMerge (New 10 2), OpMerge (New 11 2)] \<and>
   Add (\<lambda>d. (of_nat (length d), 3, 5, 7)) (New 10 2) [1, 2] =
     Inr \<lparr>bf_m = 10, bf_k = 2, bf_b = \<lparr>bs_data = [5], bs_size = 10\<rparr>\<rparr> \<and>
   Test (\<lambda>d. (of_nat (length d), 3, 5, 7))
     \<lparr>bf_m = 10, bf_k = 2, bf_b = \<lparr>bs_data = [5], bs_size = 10\<rparr>\<rparr> [1, 2] = Inr True \<and>
   apply_ops (\<lambda>d. (of_nat (length d), 3, 5, 7))
     \<lparr>bf_m = 10, bf_k = 2, bf_b = \<lparr>bs_data = [5], bs_size = 10\<rparr>\<rparr>
     [OpTestOrAdd [7], OpMerge (New 10 2), OpMerge (New 11 2)] =
     Inr \<lparr>bf_m = 10, bf_k = 2, bf_b = \<lparr>bs_data = [7], bs_size = 10\<rparr>\<rparr> \<and>
   Test (\<lambda>d. (of_nat (length d), 3, 5, 7))
     \<lparr>bf_m = 10, bf_k = 2, bf_b = \<lparr>bs_data = [7], bs_size = 10\<rparr>\<rparr> [1, 2] = Inr True"
proof -
  let ?bh = "\<lambda>d :: byte list. (of_nat (length d), 3, 5, 7) :: hashes"
  have new: "New 10 2 = \<lparr>bf_m = 10, bf_k = 2, bf_b = \<lparr>bs_data = [0], bs_size = 10\<rparr>\<rparr>"
    by (simp add: New_def max_uint_def newAtomicBitSet_def)
  have new': "New 11 2 = \<lparr>bf_m = 11, bf_k = 2, bf_b = \<lparr>bs_data = [0], bs_size = 11\<rparr>\<rparr>"
    by (simp add: New_def max_uint_def newAtomicBitSet_def)
  have inv: "filter_inv (New 10 2)"
    by (simp add: new filter_inv_def bitset_inv_def)
  have ok: "ops_ok [OpTestOrAdd [7], OpMerge (New 10 2), OpMerge (New 11 2)]"
    by (simp add: new new' filter_inv_def bitset_inv_def)
  have add: "Add ?bh (New 10 2) [1, 2] =
     Inr \<lparr>bf_m = 10, bf_k = 2, bf_b = \<lparr>bs_data = [5], bs_size = 10\<rparr>\<rparr>"
    by (simp add: new Add_def Add_loop.simps BloomFilter_location_def location_def Set_bs_def)
  have run: "apply_ops ?bh \<lparr>bf_m = 10, bf_k = 2, bf_b = \<lparr>bs_data = [5], bs_size = 10\<rparr>\<rparr>
     [OpTestOrAdd [7], OpMerge (New 10 2), OpMerge (New 11 2)] =
     Inr \<lparr>bf_m = 10, bf_k = 2, bf_b = \<lparr>bs_data = [7], bs_size = 10\<rparr>\<rparr>"
  proof -
    have "TestOrAdd ?bh \<lparr>bf_m = 10, bf_k = 2, bf_b = \<lparr>bs_data = [5], bs_size = 10\<rparr>\<rparr> [7] =
        Inr (False, \<lparr>bf_m = 10, bf_k = 2, bf_b = \<lparr>bs_data = [7], bs_size = 10\<rparr>\<rparr>)"
      by (simp add: TestOrAdd_def TestOrAdd_loop.simps BloomFilter_location_def location_def
          Set_bs_def Test_bs_def Let_def word_le_nat_alt)
    then show ?thesis
      by (simp add: new new' Merge_def InPlaceUnion_def)
  qed
  show ?thesis
    using inv ok add run
      Add_no_false_negative [OF inv ok, of ?bh "[1, 2]"]
    by auto
qed

section \<open>The constructors establish the invariant\<close>

text \<open>
  \<^verbatim>\<open>newAtomicBitSet\<close> computes the word count as \<^verbatim>\<open>(size + 63) / 64\<close> in \<^verbatim>\<open>uint\<close>;
  the sum does not wrap for \<open>size \<le> 2\<^sup>6\<^sup>4 - 64\<close>, and then the bit set and the
  filters built on it satisfy the invariant.
\<close>

lemma length_store_from: "length (store_from i dat ws) = length ws"
  by (induction i dat ws rule: store_from.induct) auto

lemma newAtomicBitSet_inv:
  assumes "sz \<le> 2 ^ 64 - 64"
  shows "bitset_inv (newAtomicBitSet sz)"
proof -
  from assms have "unat sz \<le> 2 ^ 64 - 64" by (simp add: word_le_nat_alt)
  then have "unat (sz + 63) = unat sz + 63" by (simp add: unat_word_ariths)
  then show ?thesis by (simp add: bitset_inv_def newAtomicBitSet_def unat_div)
qed

lemma New_inv:
  assumes "m \<le> 2 ^ 64 - 64"
  shows "filter_inv (New m k)"
proof -
  have "max_uint 1 m \<le> 2 ^ 64 - 64" using assms by (simp add: max_uint_def)
  moreover have "max_uint 1 m \<noteq> 0" by (auto simp: max_uint_def)
  ultimately show ?thesis
    using newAtomicBitSet_inv [of "max_uint 1 m"]
    by (simp add: New_def filter_inv_def Let_def newAtomicBitSet_def)
qed

lemma FromWithM_inv:
  assumes "m \<noteq> 0" "m \<le> 2 ^ 64 - 64"
  shows "filter_inv (FromWithM dat m k)"
  using assms newAtomicBitSet_inv [of m]
  by (simp add: FromWithM_def filter_inv_def fromAtomicBitSet_def Let_def bitset_inv_def
      length_store_from newAtomicBitSet_def)

section \<open>Merge (C3)\<close>

text \<open>
  Claim C3, as the code has it. \<^verbatim>\<open>f.Merge(g)\<close> returns an error that names both values and leaves
  \<open>f\<close> as it was when \<open>f.m \<noteq> g.m\<close>, and likewise when the \<open>m\<close> agree and
  \<open>f.k \<noteq> g.k\<close>; this holds for every pair of filters. When both parameters agree and
  both filters satisfy the invariant, it returns no error, \<open>m\<close>, \<open>k\<close> and the size
  are kept, the words of \<open>f\<close> become the bitwise OR of the words of \<open>f\<close> and \<open>g\<close>,
  and every key that tested true in \<open>f\<close> or in \<open>g\<close> tests true in the result.
\<close>

theorem Merge_spec:
  "(bf_m f \<noteq> bf_m g \<longrightarrow> Merge f g = Inr (Some (MismatchM (bf_m f) (bf_m g)), f)) \<and>
   (bf_m f = bf_m g \<and> bf_k f \<noteq> bf_k g \<longrightarrow>
      Merge f g = Inr (Some (MismatchK (bf_k f) (bf_k g)), f)) \<and>
   (bf_m f = bf_m g \<and> bf_k f = bf_k g \<and> filter_inv f \<and> filter_inv g \<longrightarrow>
      (\<exists>f'. Merge f g = Inr (None, f') \<and> bf_m f' = bf_m f \<and> bf_k f' = bf_k f \<and>
            bs_size (bf_b f') = bs_size (bf_b f) \<and>
            bs_data (bf_b f') = map2 (OR) (bs_data (bf_b f)) (bs_data (bf_b g)) \<and>
            (\<forall>x. Test baseHashes f x = Inr True \<or> Test baseHashes g x = Inr True \<longrightarrow>
                 Test baseHashes f' x = Inr True)))"
proof (intro conjI impI)
  assume "bf_m f \<noteq> bf_m g"
  then show "Merge f g = Inr (Some (MismatchM (bf_m f) (bf_m g)), f)" by (simp add: Merge_def)
next
  assume "bf_m f = bf_m g \<and> bf_k f \<noteq> bf_k g"
  then show "Merge f g = Inr (Some (MismatchK (bf_k f) (bf_k g)), f)" by (simp add: Merge_def)
next
  assume a: "bf_m f = bf_m g \<and> bf_k f = bf_k g \<and> filter_inv f \<and> filter_inv g"
  then have f: "filter_inv f" and g: "filter_inv g" and m: "bf_m f = bf_m g" and k: "bf_k f = bf_k g"
    by simp_all
  from Merge_inv [OF f g m k]
  obtain f' where run: "Merge f g = Inr (None, f')" and inv': "filter_inv f'"
    and m': "bf_m f' = bf_m f" and k': "bf_k f' = bf_k f"
    and dat: "bs_data (bf_b f') = map2 (OR) (bs_data (bf_b f)) (bs_data (bf_b g))"
    and bits: "\<And>p. bit_at (bf_b f') p \<longleftrightarrow> bit_at (bf_b f) p \<or> bit_at (bf_b g) p"
    by blast
  have gf: "grows f f'" using inv' m' k' bits by (simp add: grows_def)
  have gg: "grows g f'" using inv' m' k' m k bits by (simp add: grows_def)
  have sz: "bs_size (bf_b f') = bs_size (bf_b f)" using inv' f m' by (simp add: filter_inv_def)
  have "Test baseHashes f' x = Inr True"
    if "Test baseHashes f x = Inr True \<or> Test baseHashes g x = Inr True" for x
    using that Test_grows [OF gf f] Test_grows [OF gg g] by blast
  with run m' k' sz dat
  show "\<exists>f'. Merge f g = Inr (None, f') \<and> bf_m f' = bf_m f \<and> bf_k f' = bf_k f \<and>
            bs_size (bf_b f') = bs_size (bf_b f) \<and>
            bs_data (bf_b f') = map2 (OR) (bs_data (bf_b f)) (bs_data (bf_b g)) \<and>
            (\<forall>x. Test baseHashes f x = Inr True \<or> Test baseHashes g x = Inr True \<longrightarrow>
                 Test baseHashes f' x = Inr True)"
    by blast
qed

theorem Merge_spec_witness:
  "Merge (FromWithM [4] 10 2) (New 11 2) = Inr (Some (MismatchM 10 11), FromWithM [4] 10 2) \<and>
   Merge (FromWithM [4] 10 2) (New 10 3) = Inr (Some (MismatchK 2 3), FromWithM [4] 10 2) \<and>
   filter_inv (FromWithM [4] 10 2) \<and> filter_inv (FromWithM [3] 10 2) \<and>
   Merge (FromWithM [4] 10 2) (FromWithM [3] 10 2) = Inr (None, FromWithM [7] 10 2) \<and>
   Test (\<lambda>d. (of_nat (length d), 3, 5, 7)) (FromWithM [4] 10 2) [9] = Inr False \<and>
   Test (\<lambda>d. (of_nat (length d), 3, 5, 7)) (FromWithM [3] 10 2) [9] = Inr True \<and>
   Test (\<lambda>d. (of_nat (length d), 3, 5, 7)) (FromWithM [7] 10 2) [9] = Inr True"
proof -
  let ?bh = "\<lambda>d :: byte list. (of_nat (length d), 3, 5, 7) :: hashes"
  have frm: "FromWithM [w] 10 2 = \<lparr>bf_m = 10, bf_k = 2, bf_b = \<lparr>bs_data = [w], bs_size = 10\<rparr>\<rparr>" for w
    by (simp add: FromWithM_def max_uint_def fromAtomicBitSet_def newAtomicBitSet_def)
  have new: "New 11 2 = \<lparr>bf_m = 11, bf_k = 2, bf_b = \<lparr>bs_data = [0], bs_size = 11\<rparr>\<rparr>"
    "New 10 3 = \<lparr>bf_m = 10, bf_k = 3, bf_b = \<lparr>bs_data = [0], bs_size = 10\<rparr>\<rparr>"
    by (simp_all add: New_def max_uint_def newAtomicBitSet_def)
  have f: "filter_inv (FromWithM [4] 10 2)" and g: "filter_inv (FromWithM [3] 10 2)"
    by (simp_all add: frm filter_inv_def bitset_inv_def)
  have m: "bf_m (FromWithM [4] 10 2) \<noteq> bf_m (New 11 2)" by (simp add: frm new)
  have k: "bf_m (FromWithM [4] 10 2) = bf_m (New 10 3) \<and> bf_k (FromWithM [4] 10 2) \<noteq> bf_k (New 10 3)"
    by (simp add: frm new)
  have e: "bf_m (FromWithM [4] 10 2) = bf_m (FromWithM [3] 10 2) \<and>
      bf_k (FromWithM [4] 10 2) = bf_k (FromWithM [3] 10 2) \<and>
      filter_inv (FromWithM [4] 10 2) \<and> filter_inv (FromWithM [3] 10 2)"
    using f g by (simp add: frm)
  have run: "Merge (FromWithM [4] 10 2) (FromWithM [3] 10 2) = Inr (None, FromWithM [7] 10 2)"
    by (simp add: frm Merge_def InPlaceUnion_def)
  have t: "Test ?bh (FromWithM [4] 10 2) [9] = Inr False"
    "Test ?bh (FromWithM [3] 10 2) [9] = Inr True"
    by (simp_all add: frm Test_def Test_loop.simps BloomFilter_location_def location_def
        Test_bs_def Let_def word_le_nat_alt)
  from Merge_spec [of "FromWithM [4] 10 2" "New 11 2" ?bh] m
  have 1: "Merge (FromWithM [4] 10 2) (New 11 2) = Inr (Some (MismatchM 10 11), FromWithM [4] 10 2)"
    by (simp add: frm new)
  from Merge_spec [of "FromWithM [4] 10 2" "New 10 3" ?bh] k
  have 2: "Merge (FromWithM [4] 10 2) (New 10 3) = Inr (Some (MismatchK 2 3), FromWithM [4] 10 2)"
    by (simp add: frm new)
  from Merge_spec [of "FromWithM [4] 10 2" "FromWithM [3] 10 2" ?bh] e run t(2)
  have 3: "Test ?bh (FromWithM [7] 10 2) [9] = Inr True"
    by auto
  from 1 2 f g run t 3 show ?thesis by simp
qed

section \<open>The probe formula (C2)\<close>

lemma at4_nth:
  assumes "unat j < 4"
  shows "unat (at4 (h0, h1, h2, h3) j) = [unat h0, unat h1, unat h2, unat h3] ! unat j"
proof -
  from assms consider "unat j = 0" | "unat j = 1" | "unat j = 2" | "unat j = 3" by linarith
  then show ?thesis
  proof cases
    case 1
    then have "j = 0" by (simp add: unat_0_iff)
    then show ?thesis by simp
  next
    case 2
    then have "j = 1" by (simp add: word_unat_eq_iff)
    then show ?thesis by simp
  next
    case 3
    then have "j = 2" by (simp add: word_unat_eq_iff)
    then show ?thesis by simp
  next
    case 4
    then have "j = 3" by (simp add: word_unat_eq_iff)
    then show ?thesis by simp
  qed
qed

lemma location_indices:
  fixes i :: u64
  shows "unat (i mod 2) = unat i mod 2"
    and "unat (2 + (((i + (i mod 2)) mod 4) div 2)) = 2 + (((unat i + (unat i mod 2)) mod 4) div 2)"
proof -
  show "unat (i mod 2) = unat i mod 2" by (simp add: unat_mod)
  define s where "s = unat i + unat i mod 2"
  define x where "x = ((i + (i mod 2)) mod 4) div 2"
  have "unat (i + (i mod 2)) = s mod 2 ^ 64"
    by (simp add: s_def unat_mod unat_word_ariths)
  then have "unat ((i + (i mod 2)) mod 4) = (s mod 2 ^ 64) mod 4"
    by (simp add: unat_mod)
  also have "\<dots> = s mod 4"
  proof (rule mod_mod_cancel)
    have "(2 :: nat) ^ 2 dvd 2 ^ 64" by (rule le_imp_power_dvd) simp
    then show "(4 :: nat) dvd 2 ^ 64" by simp
  qed
  finally have x: "unat x = (s mod 4) div 2"
    by (simp add: x_def unat_div)
  have "s mod 4 < 4" by simp
  then have small: "(s mod 4) div 2 < 2" by linarith
  have "unat (2 + x) = (2 + unat x) mod 2 ^ 64" by (simp add: unat_word_ariths)
  also have "\<dots> = 2 + unat x" using small x by simp
  finally show "unat (2 + (((i + (i mod 2)) mod 4) div 2)) = 2 + (((unat i + (unat i mod 2)) mod 4) div 2)"
    unfolding x x_def [symmetric] s_def .
qed

lemma location_unat:
  "unat (location (h0, h1, h2, h3) i) = location_spec [unat h0, unat h1, unat h2, unat h3] (unat i)"
proof -
  let ?hs = "[unat h0, unat h1, unat h2, unat h3]"
  let ?a = "i mod 2" and ?b = "2 + (((i + (i mod 2)) mod 4) div 2)"
  have a: "unat (at4 (h0, h1, h2, h3) ?a) = ?hs ! (unat i mod 2)"
    using at4_nth [of ?a h0 h1 h2 h3] by (simp add: location_indices(1))
  have "(unat i + unat i mod 2) mod 4 < 4" by simp
  then have "((unat i + unat i mod 2) mod 4) div 2 < 2" by linarith
  then have "unat ?b < 4" unfolding location_indices(2) by linarith
  then have b: "unat (at4 (h0, h1, h2, h3) ?b) = ?hs ! (2 + (((unat i + (unat i mod 2)) mod 4) div 2))"
    using at4_nth [of ?b h0 h1 h2 h3] by (simp only: location_indices(2))
  have "unat (location (h0, h1, h2, h3) i) =
      (unat (at4 (h0, h1, h2, h3) ?a) + unat i * unat (at4 (h0, h1, h2, h3) ?b) mod 2 ^ 64) mod 2 ^ 64"
    by (simp add: location_def Let_def unat_word_ariths)
  also have "\<dots> = (unat (at4 (h0, h1, h2, h3) ?a) + unat i * unat (at4 (h0, h1, h2, h3) ?b)) mod 2 ^ 64"
    by (simp add: mod_add_right_eq)
  finally show ?thesis unfolding a b by (simp add: location_spec_def)
qed

text \<open>
  Claim C2. For every 4-tuple of base hashes and every probe index \<open>i\<close>, the raw
  probe position that \<^verbatim>\<open>location\<close> computes on 64-bit words is
  \<open>h[i % 2] + i * h[2 + (((i + (i % 2)) % 4) / 2)]\<close> modulo \<open>2\<^sup>6\<^sup>4\<close>, with the
  indices taken over the natural numbers; and the bit index that a filter with
  \<open>m \<noteq> 0\<close> bits uses is that value modulo \<open>m\<close>.
\<close>

theorem location_formula:
  "unat (location (h0, h1, h2, h3) i) = location_spec [unat h0, unat h1, unat h2, unat h3] (unat i) \<and>
   (bf_m f \<noteq> 0 \<longrightarrow>
      (\<exists>l. BloomFilter_location f (h0, h1, h2, h3) i = Inr l \<and>
           unat l = location_spec [unat h0, unat h1, unat h2, unat h3] (unat i) mod unat (bf_m f)))"
  by (simp add: location_unat BloomFilter_location_def unat_mod)

theorem location_formula_witness:
  "location (11, 22, 33, 44) 3 = 121 \<and>
   location_spec [11, 22, 33, 44] 3 = 121 \<and>
   bf_m (New 10 2) \<noteq> 0 \<and>
   BloomFilter_location (New 10 2) (11, 22, 33, 44) 3 = Inr 1"
proof -
  have m: "bf_m (New 10 2) \<noteq> 0" by (simp add: New_def max_uint_def)
  have s: "location_spec [11, 22, 33, 44] 3 = 121" by (simp add: location_spec_def)
  have l: "location (11, 22, 33, 44) 3 = 121" by (simp add: location_def)
  have b: "BloomFilter_location (New 10 2) (11, 22, 33, 44) 3 = Inr 1"
    by (simp add: BloomFilter_location_def New_def max_uint_def location_def)
  from location_formula [of 11 22 33 44 3 "New 10 2"] m l s b
  show ?thesis by simp
qed

section \<open>Binary round trip (C4)\<close>

section \<open>Binary round trip (C4)\<close>

lemma byte_back:
  fixes v :: u64
  assumes "n < 64"
  shows "bit (push_bit k (ucast (ucast (drop_bit k v) :: byte) :: u64)) n \<longleftrightarrow> k \<le> n \<and> n < k + 8 \<and> bit v n"
  using assms by (auto simp: bit_push_bit_iff bit_ucast_iff bit_drop_bit_eq)

lemma byte_back0:
  fixes v :: u64
  assumes "n < 64"
  shows "bit (ucast (ucast v :: byte) :: u64) n \<longleftrightarrow> n < 8 \<and> bit v n"
  using assms by (auto simp: bit_ucast_iff)

lemma Uint64_PutUint64: "Uint64 (PutUint64 v) = v"
proof (rule bit_eqI)
  fix n
  assume "possible_bit TYPE(u64) n"
  then have n: "n < 64" by simp
  have "bit (Uint64 (PutUint64 v)) n \<longleftrightarrow>
      (n < 8 \<and> bit v n) \<or> (8 \<le> n \<and> n < 8 + 8 \<and> bit v n) \<or> (16 \<le> n \<and> n < 16 + 8 \<and> bit v n) \<or>
      (24 \<le> n \<and> n < 24 + 8 \<and> bit v n) \<or> (32 \<le> n \<and> n < 32 + 8 \<and> bit v n) \<or>
      (40 \<le> n \<and> n < 40 + 8 \<and> bit v n) \<or> (48 \<le> n \<and> n < 48 + 8 \<and> bit v n) \<or>
      (56 \<le> n \<and> n < 56 + 8 \<and> bit v n)"
    unfolding Uint64_def PutUint64_def
    by (simp only: nth_Cons_numeral nth_Cons_0 bit_or_iff byte_back [OF n] byte_back0 [OF n]
        list.sel(3) numeral_nat(1-3) pred_numeral_simps arith_simps
        nth_Cons_Suc One_nat_def diff_Suc_1 Suc_eq_numeral)
  also have "\<dots> \<longleftrightarrow> bit v n" using n by arith
  finally show "bit (Uint64 (PutUint64 v)) n \<longleftrightarrow> bit v n" .
qed


lemma length_PutUint64: "length (PutUint64 v) = 8"
  by (simp add: PutUint64_def)

lemma binary_Read_Put: "binary_Read (PutUint64 v @ rest) = Inr (v, rest)"
  by (simp add: binary_Read_def length_PutUint64 Uint64_PutUint64)


lemma ReadFrom_loop_words:
  "unat i + length vals = unat dataLen \<Longrightarrow> length dat = unat dataLen \<Longrightarrow>
   ReadFrom_loop dataLen i (concat (map PutUint64 vals) @ rest) dat totalBytes =
     Inr (take (unat i) dat @ vals, totalBytes + 8 * of_nat (length vals), rest)"
proof (induction vals arbitrary: i dat totalBytes)
  case Nil
  then have "\<not> i < dataLen" by (simp add: word_less_nat_alt)
  with Nil show ?case by (subst ReadFrom_loop.simps) simp
next
  case (Cons v vals)
  then have lt: "i < dataLen" by (simp add: word_less_nat_alt)
  then have "unat i < unat dataLen" by (simp add: word_less_nat_alt)
  moreover have "unat dataLen < 2 ^ 64" using unsigned_less [of dataLen, where ?'a = nat] by simp
  ultimately have inc: "unat (i + 1) = Suc (unat i)" by (simp add: unat_word_ariths)
  have step: "ReadFrom_loop dataLen i (concat (map PutUint64 (v # vals)) @ rest) dat totalBytes =
      ReadFrom_loop dataLen (i + 1) (concat (map PutUint64 vals) @ rest) (dat[unat i := v]) (totalBytes + 8)"
    using lt by (subst ReadFrom_loop.simps) (simp add: binary_Read_Put)
  have "ReadFrom_loop dataLen (i + 1) (concat (map PutUint64 vals) @ rest) (dat[unat i := v]) (totalBytes + 8) =
      Inr (take (unat (i + 1)) (dat[unat i := v]) @ vals, totalBytes + 8 + 8 * of_nat (length vals), rest)"
    using Cons.prems inc by (intro Cons.IH) simp_all
  moreover have "take (unat (i + 1)) (dat[unat i := v]) @ vals = take (unat i) dat @ v # vals"
    using Cons.prems \<open>unat i < unat dataLen\<close> inc
    by (simp add: take_Suc_conv_app_nth)
  ultimately show ?case using step by (simp add: algebra_simps)
qed

lemma ReadFrom_encoded:
  assumes "length ws < 2 ^ 63" "8 * length ws \<le> maxAlloc"
  shows "ReadFrom maxAlloc (PutUint64 m @ PutUint64 k @ PutUint64 sz @ PutUint64 (of_nat (length ws)) @
            concat (map PutUint64 ws) @ rest) =
         Returns (\<lparr>bf_m = m, bf_k = k, bf_b = \<lparr>bs_data = ws, bs_size = sz\<rparr>\<rparr>,
              32 + 8 * of_nat (length ws), rest)"
proof -
  let ?n = "of_nat (length ws) :: u64"
  from assms(1) have n: "unat ?n = length ws" by (simp add: unat_of_nat)
  have ok: "\<not> makeslice_panics maxAlloc ?n"
    using assms by (simp add: makeslice_panics_def n)
  have "ReadFrom_loop ?n 0 (concat (map PutUint64 ws) @ rest) (replicate (unat ?n) 0) (8 + 8) =
      Inr (take (unat (0 :: u64)) (replicate (unat ?n) 0) @ ws, (8 + 8) + 8 * of_nat (length ws), rest)"
    by (rule ReadFrom_loop_words) (simp_all add: n)
  then have "ReadFrom_bs maxAlloc (PutUint64 sz @ PutUint64 ?n @ concat (map PutUint64 ws) @ rest) =
      Returns (\<lparr>bs_data = ws, bs_size = sz\<rparr>, 16 + 8 * of_nat (length ws), rest)"
    using ok by (simp add: ReadFrom_bs_def binary_Read_Put)
  then show ?thesis by (simp add: ReadFrom_def binary_Read_Put)
qed




lemma PutUint64_small:
  "PutUint64 0 = [0, 0, 0, 0, 0, 0, 0, 0]"
  "PutUint64 1 = [0, 0, 0, 0, 0, 0, 0, 1]"
  "PutUint64 64 = [0, 0, 0, 0, 0, 0, 0, 64]"
  by (simp_all add: PutUint64_def drop_bit_eq_div)



section \<open>Decoding (C5)\<close>

lemma binary_Read_cases:
  "binary_Read s = (if length s < 8 then Inl (if length s = 0 then EOF else ErrUnexpectedEOF)
                    else Inr (Uint64 (take 8 s), drop 8 s))"
  by (simp add: binary_Read_def)

lemma ReadFrom_loop_char:
  "unat i \<le> unat dataLen \<Longrightarrow>
   (if length stream < 8 * (unat dataLen - unat i)
    then \<exists>e. ReadFrom_loop dataLen i stream dat totalBytes = Inl e
    else \<exists>dat' n. ReadFrom_loop dataLen i stream dat totalBytes =
            Inr (dat', n, drop (8 * (unat dataLen - unat i)) stream) \<and> length dat' = length dat)"
proof (induction dataLen i stream dat totalBytes rule: ReadFrom_loop.induct)
  case (1 dataLen i stream dat totalBytes)
  show ?case
  proof (cases "i < dataLen")
    case False
    with "1.prems" have "unat dataLen - unat i = 0" by (simp add: word_less_nat_alt)
    with False show ?thesis by (subst ReadFrom_loop.simps) simp
  next
    case lt: True
    then have lt': "unat i < unat dataLen" by (simp add: word_less_nat_alt)
    moreover have "unat dataLen < 2 ^ 64" using unsigned_less [of dataLen, where ?'a = nat] by simp
    ultimately have inc: "unat (i + 1) = Suc (unat i)" by (simp add: unat_word_ariths)
    show ?thesis
    proof (cases "length stream < 8")
      case True
      with lt' have "length stream < 8 * (unat dataLen - unat i)" by simp
      with lt True show ?thesis
        by (subst ReadFrom_loop.simps) (simp add: binary_Read_cases)
    next
      case False
      let ?v = "Uint64 (take 8 stream)" and ?s = "drop 8 stream"
      from False have rd: "binary_Read stream = Inr (?v, ?s)" by (simp add: binary_Read_cases)
      have step: "ReadFrom_loop dataLen i stream dat totalBytes =
          ReadFrom_loop dataLen (i + 1) ?s (dat[unat i := ?v]) (totalBytes + 8)"
        using lt rd by (subst ReadFrom_loop.simps) simp
      have le: "unat (i + 1) \<le> unat dataLen" using inc lt' by simp
      have k: "unat dataLen - unat i = Suc (unat dataLen - unat (i + 1))" using inc lt' by simp
      have len: "length ?s < 8 * (unat dataLen - unat (i + 1)) \<longleftrightarrow>
          length stream < 8 * (unat dataLen - unat i)"
        using False unfolding k by simp linarith
      have dr: "drop (8 * (unat dataLen - unat (i + 1))) ?s = drop (8 * (unat dataLen - unat i)) stream"
        unfolding k by (simp add: add.commute)
      from "1.IH" [OF lt rd refl le] show ?thesis
        unfolding step len dr by (auto split: if_splits)
    qed
  qed
qed

lemma ReadFrom_bs_char:
  "if length stream < 16 then \<exists>e. ReadFrom_bs maxAlloc stream = Fails e
   else if makeslice_panics maxAlloc (Uint64 (take 8 (drop 8 stream)))
     then ReadFrom_bs maxAlloc stream = Panics MakeSliceLenOutOfRange
   else if length stream < 16 + 8 * unat (Uint64 (take 8 (drop 8 stream)))
     then \<exists>e. ReadFrom_bs maxAlloc stream = Fails e
   else \<exists>dat n. ReadFrom_bs maxAlloc stream =
          Returns (\<lparr>bs_data = dat, bs_size = Uint64 (take 8 stream)\<rparr>, n,
               drop (16 + 8 * unat (Uint64 (take 8 (drop 8 stream)))) stream) \<and>
          length dat = unat (Uint64 (take 8 (drop 8 stream)))"
proof (cases "length stream < 16")
  case True
  then show ?thesis by (auto simp: ReadFrom_bs_def binary_Read_cases)
next
  case False
  let ?n = "Uint64 (take 8 (drop 8 stream))"
  let ?s = "drop 8 (drop 8 stream)"
  have hd: "ReadFrom_bs maxAlloc stream =
      (if makeslice_panics maxAlloc ?n then Panics MakeSliceLenOutOfRange
       else
         (case ReadFrom_loop ?n 0 ?s (replicate (unat ?n) 0) (8 + 8) of
            Inl e \<Rightarrow> Fails e
          | Inr (dat, totalBytes, stream') \<Rightarrow>
              Returns (\<lparr>bs_data = dat, bs_size = Uint64 (take 8 stream)\<rparr>, totalBytes, stream')))"
  proof -
    from False have "\<not> length stream < 8" and "\<not> length (drop 8 stream) < 8" by simp_all
    then show ?thesis by (simp add: ReadFrom_bs_def binary_Read_cases)
  qed
  have len: "length ?s < 8 * unat ?n \<longleftrightarrow> length stream < 16 + 8 * unat ?n"
    using False by simp linarith
  show ?thesis
  proof (cases "makeslice_panics maxAlloc ?n")
    case True
    with False show ?thesis by (simp add: hd)
  next
    case ok: False
    from ReadFrom_loop_char [of 0 ?n ?s "replicate (unat ?n) 0" "8 + 8"] len ok False
    show ?thesis unfolding hd by (auto simp: add.commute split: if_splits)
  qed
qed

lemma ReadFrom_char:
  "if length stream < 32 then \<exists>e. ReadFrom maxAlloc stream = Fails e
   else if makeslice_panics maxAlloc (Uint64 (take 8 (drop 24 stream)))
     then ReadFrom maxAlloc stream = Panics MakeSliceLenOutOfRange
   else if length stream < 32 + 8 * unat (Uint64 (take 8 (drop 24 stream)))
     then \<exists>e. ReadFrom maxAlloc stream = Fails e
   else \<exists>dat n. ReadFrom maxAlloc stream =
          Returns (\<lparr>bf_m = Uint64 (take 8 stream), bf_k = Uint64 (take 8 (drop 8 stream)),
                     bf_b = \<lparr>bs_data = dat, bs_size = Uint64 (take 8 (drop 16 stream))\<rparr>\<rparr>, n,
               drop (32 + 8 * unat (Uint64 (take 8 (drop 24 stream)))) stream) \<and>
          length dat = unat (Uint64 (take 8 (drop 24 stream)))"
proof (cases "length stream < 16")
  case True
  then show ?thesis by (auto simp: ReadFrom_def binary_Read_cases)
next
  case False
  let ?s = "drop 16 stream"
  let ?n = "Uint64 (take 8 (drop 24 stream))"
  have hd: "ReadFrom maxAlloc stream =
      (case ReadFrom_bs maxAlloc ?s of
         Panics c \<Rightarrow> Panics c
       | Fails e \<Rightarrow> Fails e
       | Returns (b, numBytes, stream') \<Rightarrow>
           Returns (\<lparr>bf_m = Uint64 (take 8 stream), bf_k = Uint64 (take 8 (drop 8 stream)), bf_b = b\<rparr>,
                8 + 8 + numBytes, stream'))"
  proof -
    from False have "\<not> length stream < 8" and "\<not> length (drop 8 stream) < 8" by simp_all
    then show ?thesis by (simp add: ReadFrom_def binary_Read_cases)
  qed
  have len: "length ?s < 16 \<longleftrightarrow> length stream < 32"
    "length ?s < 16 + 8 * unat ?n \<longleftrightarrow> length stream < 32 + 8 * unat ?n"
    using False by (simp, linarith) (simp, linarith)
  have n: "Uint64 (take 8 (drop 8 ?s)) = ?n" by simp
  have d: "drop (16 + 8 * unat ?n) ?s = drop (32 + 8 * unat ?n) stream"
    by (simp add: add.commute)
  from ReadFrom_bs_char [of ?s maxAlloc]
  have c: "if length stream < 32 then \<exists>e. ReadFrom_bs maxAlloc ?s = Fails e
     else if makeslice_panics maxAlloc ?n
       then ReadFrom_bs maxAlloc ?s = Panics MakeSliceLenOutOfRange
     else if length stream < 32 + 8 * unat ?n
       then \<exists>e. ReadFrom_bs maxAlloc ?s = Fails e
     else \<exists>dat n. ReadFrom_bs maxAlloc ?s =
            Returns (\<lparr>bs_data = dat, bs_size = Uint64 (take 8 ?s)\<rparr>, n,
                 drop (32 + 8 * unat ?n) stream) \<and>
            length dat = unat ?n"
    unfolding len n d .
  show ?thesis
  proof (cases "length stream < 32")
    case True
    with c show ?thesis by (auto simp: hd)
  next
    case l: False
    show ?thesis
    proof (cases "makeslice_panics maxAlloc ?n")
      case True
      with c l show ?thesis by (simp add: hd)
    next
      case ok: False
      show ?thesis
      proof (cases "length stream < 32 + 8 * unat ?n")
        case True
        with c l ok show ?thesis by (auto simp: hd)
      next
        case False
        with c l ok obtain dat n where "ReadFrom_bs maxAlloc ?s =
            Returns (\<lparr>bs_data = dat, bs_size = Uint64 (take 8 ?s)\<rparr>, n,
                 drop (32 + 8 * unat ?n) stream)" and "length dat = unat ?n"
          by auto
        with l ok False show ?thesis by (simp add: hd)
      qed
    qed
  qed
qed

text \<open>
  Claim C5, as the code has it. \<^verbatim>\<open>ReadFrom\<close> never compares the declared word count
  with the declared size, so an inconsistent input is no decode error on that account.
  It returns an error only when the stream is truncated: shorter than the four 64-bit
  header fields (32 bytes), or shorter than the header plus eight bytes for each declared
  word. An input that holds all its declared words, with a word count that \<^verbatim>\<open>make\<close>
  allocates, is accepted, and the filter read has the declared \<open>m\<close>, \<open>k\<close> and size
  and as many words as the input declares, whatever \<open>\<lceil>size / 64\<rceil>\<close> is.
\<close>

theorem ReadFrom_checks_length_only:
  "((\<exists>e. ReadFrom maxAlloc stream = Fails e) \<longrightarrow>
      length stream < 32 \<or> length stream < 32 + 8 * unat (Uint64 (take 8 (drop 24 stream)))) \<and>
   (32 + 8 * unat (Uint64 (take 8 (drop 24 stream))) \<le> length stream \<and>
    \<not> makeslice_panics maxAlloc (Uint64 (take 8 (drop 24 stream))) \<longrightarrow>
      (\<exists>dat n. ReadFrom maxAlloc stream =
         Returns (\<lparr>bf_m = Uint64 (take 8 stream), bf_k = Uint64 (take 8 (drop 8 stream)),
                    bf_b = \<lparr>bs_data = dat, bs_size = Uint64 (take 8 (drop 16 stream))\<rparr>\<rparr>, n,
              drop (32 + 8 * unat (Uint64 (take 8 (drop 24 stream)))) stream) \<and>
         length dat = unat (Uint64 (take 8 (drop 24 stream)))))"
proof (intro conjI impI)
  assume "\<exists>e. ReadFrom maxAlloc stream = Fails e"
  with ReadFrom_char [of stream maxAlloc]
  show "length stream < 32 \<or> length stream < 32 + 8 * unat (Uint64 (take 8 (drop 24 stream)))"
    by (auto split: if_splits)
next
  assume "32 + 8 * unat (Uint64 (take 8 (drop 24 stream))) \<le> length stream \<and>
    \<not> makeslice_panics maxAlloc (Uint64 (take 8 (drop 24 stream)))"
  then have "\<not> length stream < 32"
    and "\<not> length stream < 32 + 8 * unat (Uint64 (take 8 (drop 24 stream)))"
    and "\<not> makeslice_panics maxAlloc (Uint64 (take 8 (drop 24 stream)))"
    by simp_all
  with ReadFrom_char [of stream maxAlloc]
  show "\<exists>dat n. ReadFrom maxAlloc stream =
         Returns (\<lparr>bf_m = Uint64 (take 8 stream), bf_k = Uint64 (take 8 (drop 8 stream)),
                    bf_b = \<lparr>bs_data = dat, bs_size = Uint64 (take 8 (drop 16 stream))\<rparr>\<rparr>, n,
              drop (32 + 8 * unat (Uint64 (take 8 (drop 24 stream)))) stream) \<and>
         length dat = unat (Uint64 (take 8 (drop 24 stream)))"
    by simp
qed

lemma PutUint64_more:
  "PutUint64 200 = [0, 0, 0, 0, 0, 0, 0, 200]"
  "PutUint64 128 = [0, 0, 0, 0, 0, 0, 0, 128]"
  "PutUint64 2 = [0, 0, 0, 0, 0, 0, 0, 2]"
  by (simp_all add: PutUint64_def drop_bit_eq_div)

lemma Uint64_small:
  "Uint64 [0, 0, 0, 0, 0, 0, 0, 1] = 1"
  "Uint64 [0, 0, 0, 0, 0, 0, 0, 0] = 0"
  using Uint64_PutUint64 [of 1] Uint64_PutUint64 [of 0] by (simp_all add: PutUint64_small)

theorem ReadFrom_checks_length_only_witness:
  "ReadFrom (2 ^ 48) [0, 0, 0] = Fails ErrUnexpectedEOF \<and>
   length [0 :: byte, 0, 0] < 32 \<and>
   \<not> makeslice_panics (2 ^ 48) 1 \<and>
   ReadFrom (2 ^ 48)
     [0, 0, 0, 0, 0, 0, 0, 1,  0, 0, 0, 0, 0, 0, 0, 1,  0, 0, 0, 0, 0, 0, 0, 200,
      0, 0, 0, 0, 0, 0, 0, 1,  0, 0, 0, 0, 0, 0, 0, 0] =
     Returns (\<lparr>bf_m = 1, bf_k = 1, bf_b = \<lparr>bs_data = [0], bs_size = 200\<rparr>\<rparr>, 40, [])"
proof -
  let ?s = "[0, 0, 0, 0, 0, 0, 0, 1,  0, 0, 0, 0, 0, 0, 0, 1,  0, 0, 0, 0, 0, 0, 0, 200,
             0, 0, 0, 0, 0, 0, 0, 1,  0, 0, 0, 0, 0, 0, 0, 0] :: byte list"
  have short: "ReadFrom (2 ^ 48) [0, 0, 0] = Fails ErrUnexpectedEOF"
    by (simp add: ReadFrom_def binary_Read_def)
  then have "\<exists>e. ReadFrom (2 ^ 48) [0, 0, 0] = Fails e" by simp
  with ReadFrom_checks_length_only [of "2 ^ 48" "[0, 0, 0]"]
  have "length [0 :: byte, 0, 0] < 32 \<or>
      length [0 :: byte, 0, 0] < 32 + 8 * unat (Uint64 (take 8 (drop 24 [0, 0, 0])))"
    by blast
  then have l: "length [0 :: byte, 0, 0] < 32" by simp
  have m: "\<not> makeslice_panics (2 ^ 48) 1" by (simp add: makeslice_panics_def)
  have n: "Uint64 (take 8 (drop 24 ?s)) = 1" by (simp add: Uint64_small)
  have h: "32 + 8 * unat (Uint64 (take 8 (drop 24 ?s))) \<le> length ?s \<and>
      \<not> makeslice_panics (2 ^ 48) (Uint64 (take 8 (drop 24 ?s)))"
    unfolding n using m by simp
  from ReadFrom_checks_length_only [of "2 ^ 48" ?s] h
  have "\<exists>dat n. ReadFrom (2 ^ 48) ?s =
         Returns (\<lparr>bf_m = Uint64 (take 8 ?s), bf_k = Uint64 (take 8 (drop 8 ?s)),
                    bf_b = \<lparr>bs_data = dat, bs_size = Uint64 (take 8 (drop 16 ?s))\<rparr>\<rparr>, n,
              drop (32 + 8 * unat (Uint64 (take 8 (drop 24 ?s)))) ?s) \<and>
         length dat = unat (Uint64 (take 8 (drop 24 ?s)))"
    by blast
  then have ok: "ReadFrom (2 ^ 48) ?s =
      Returns (\<lparr>bf_m = 1, bf_k = 1, bf_b = \<lparr>bs_data = [0], bs_size = 200\<rparr>\<rparr>, 40, [])"
    using ReadFrom_encoded [of "[0]" "2 ^ 48" 1 1 200 "[]"]
    by (simp add: PutUint64_small PutUint64_more)
  show ?thesis by (rule conjI [OF short conjI [OF l conjI [OF m ok]]])
qed

text \<open>
  The claim as stated fails: the 32 bytes below declare 64 bits and no word, where
  \<open>\<lceil>64 / 64\<rceil> = 1\<close>, and \<^verbatim>\<open>ReadFrom\<close> accepts them (the allocation limit is that
  of 64-bit Linux, \<open>2\<^sup>4\<^sup>8\<close>). The filter they yield panics on every \<^verbatim>\<open>Add\<close>.
\<close>

theorem ReadFrom_accepts_inconsistent:
  "ReadFrom (2 ^ 48)
     [0, 0, 0, 0, 0, 0, 0, 64,  0, 0, 0, 0, 0, 0, 0, 1,
      0, 0, 0, 0, 0, 0, 0, 64,  0, 0, 0, 0, 0, 0, 0, 0] =
     Returns (\<lparr>bf_m = 64, bf_k = 1, bf_b = \<lparr>bs_data = [], bs_size = 64\<rparr>\<rparr>, 32, []) \<and>
   length ([] :: u64 list) \<noteq> (64 + 63) div 64"
  using ReadFrom_encoded [of "[]" "2 ^ 48" 64 1 64 "[]"] by (simp add: PutUint64_small)

lemma inconsistent_filter_panics:
  "Add baseHashes \<lparr>bf_m = 64, bf_k = 1, bf_b = \<lparr>bs_data = [], bs_size = 64\<rparr>\<rparr> dat = Inl IndexOutOfRange"
proof -
  have "location (baseHashes dat) 0 mod 64 < 64"
    by (simp add: word_less_nat_alt unat_mod)
  then show ?thesis
    by (simp add: Add_def Add_loop.simps BloomFilter_location_def Set_bs_def Let_def not_le)
qed

text \<open>
  A declared word count from \<open>2\<^sup>6\<^sup>3\<close> on is no decode error either: the allocation
  panics before any word is read, under every allocation limit.
\<close>

lemma ReadFrom_panics_on_huge_count:
  "ReadFrom maxAlloc
     [0, 0, 0, 0, 0, 0, 0, 64,  0, 0, 0, 0, 0, 0, 0, 1,
      0, 0, 0, 0, 0, 0, 0, 64,  128, 0, 0, 0, 0, 0, 0, 0] = Panics MakeSliceLenOutOfRange"
proof -
  have "Uint64 [128, 0, 0, 0, 0, 0, 0, 0] = 2 ^ 63"
    by (simp add: Uint64_def)
  then show ?thesis
    by (simp add: ReadFrom_def ReadFrom_bs_def binary_Read_def makeslice_panics_def)
qed

section \<open>Bit sets with too few words (C8)\<close>

text \<open>
  Without the invariant the word access can leave the array: \<^verbatim>\<open>atomicBitSet.ReadFrom\<close>
  builds the bit set below from 16 bytes that declare 64 bits and no word, and
  \<^verbatim>\<open>Set(0)\<close> and \<^verbatim>\<open>Test(0)\<close> panic on it.
\<close>

theorem Set_Test_panic_on_short_words:
  "ReadFrom_bs (2 ^ 48) [0, 0, 0, 0, 0, 0, 0, 64,  0, 0, 0, 0, 0, 0, 0, 0] =
     Returns (\<lparr>bs_data = [], bs_size = 64\<rparr>, 16, []) \<and>
   Set_bs \<lparr>bs_data = [], bs_size = 64\<rparr> 0 = Inl IndexOutOfRange \<and>
   Test_bs \<lparr>bs_data = [], bs_size = 64\<rparr> 0 = Inl IndexOutOfRange"
  by (simp add: ReadFrom_bs_def binary_Read_def ReadFrom_loop.simps Set_bs_def Test_bs_def
      Uint64_def makeslice_panics_def)

text \<open>
  \<^verbatim>\<open>newAtomicBitSet\<close> itself leaves the invariant behind when \<^verbatim>\<open>size + 63\<close> wraps
  around: for \<open>size = 2\<^sup>6\<^sup>4 - 1\<close> it allocates no word at all.
\<close>

lemma newAtomicBitSet_wraps:
  "newAtomicBitSet (- 1) = \<lparr>bs_data = [], bs_size = - 1\<rparr>"
  "Set_bs (newAtomicBitSet (- 1)) 0 = Inl IndexOutOfRange"
  by (simp_all add: newAtomicBitSet_def Set_bs_def)

section \<open>Filters outside the invariant (C1, C3, C6)\<close>

text \<open>
  Claim C1 does not hold for every filter. \<^verbatim>\<open>ReadFrom\<close> accepts the 40 bytes below; they
  declare \<open>m = 128\<close>, \<open>k = 1\<close> and a bit set of 64 bits in one word. For a key whose
  probe position is 100, \<^verbatim>\<open>Set(100)\<close> is the silent no-op of an index at or beyond
  the size: \<^verbatim>\<open>Add\<close> returns, the filter is unchanged, and \<^verbatim>\<open>Test\<close> of the same key
  is false. \<^verbatim>\<open>AddHash\<close> and \<^verbatim>\<open>TestHash\<close> take the base hashes \<open>(100, 0, 0, 0)\<close> as
  they are; for \<^verbatim>\<open>Add\<close> and \<^verbatim>\<open>Test\<close> the hash parameter maps the key to them.
\<close>

theorem Add_then_Test_false_on_decoded:
  "ReadFrom (2 ^ 48)
     [0, 0, 0, 0, 0, 0, 0, 128,  0, 0, 0, 0, 0, 0, 0, 1,  0, 0, 0, 0, 0, 0, 0, 64,
      0, 0, 0, 0, 0, 0, 0, 1,  0, 0, 0, 0, 0, 0, 0, 0] =
     Returns (\<lparr>bf_m = 128, bf_k = 1, bf_b = \<lparr>bs_data = [0], bs_size = 64\<rparr>\<rparr>, 40, []) \<and>
   AddHash \<lparr>bf_m = 128, bf_k = 1, bf_b = \<lparr>bs_data = [0], bs_size = 64\<rparr>\<rparr> (100, 0, 0, 0) =
     Inr \<lparr>bf_m = 128, bf_k = 1, bf_b = \<lparr>bs_data = [0], bs_size = 64\<rparr>\<rparr> \<and>
   TestHash \<lparr>bf_m = 128, bf_k = 1, bf_b = \<lparr>bs_data = [0], bs_size = 64\<rparr>\<rparr> (100, 0, 0, 0) = Inr False \<and>
   Add (\<lambda>dat. (100, 0, 0, 0)) \<lparr>bf_m = 128, bf_k = 1, bf_b = \<lparr>bs_data = [0], bs_size = 64\<rparr>\<rparr> [] =
     Inr \<lparr>bf_m = 128, bf_k = 1, bf_b = \<lparr>bs_data = [0], bs_size = 64\<rparr>\<rparr> \<and>
   Test (\<lambda>dat. (100, 0, 0, 0)) \<lparr>bf_m = 128, bf_k = 1, bf_b = \<lparr>bs_data = [0], bs_size = 64\<rparr>\<rparr> [] =
     Inr False"
proof -
  have "ReadFrom (2 ^ 48)
     [0, 0, 0, 0, 0, 0, 0, 128,  0, 0, 0, 0, 0, 0, 0, 1,  0, 0, 0, 0, 0, 0, 0, 64,
      0, 0, 0, 0, 0, 0, 0, 1,  0, 0, 0, 0, 0, 0, 0, 0] =
     Returns (\<lparr>bf_m = 128, bf_k = 1, bf_b = \<lparr>bs_data = [0], bs_size = 64\<rparr>\<rparr>, 40, [])"
    using ReadFrom_encoded [of "[0]" "2 ^ 48" 128 1 64 "[]"]
    by (simp add: PutUint64_small PutUint64_more)
  then show ?thesis
    by (simp add: Add_def AddHash_def Add_loop.simps Test_def TestHash_def Test_loop.simps
        BloomFilter_location_def location_def Set_bs_def Test_bs_def word_le_nat_alt)
qed

text \<open>
  Claim C6 does not hold for every filter. On the same decoded filter \<^verbatim>\<open>TestAndAdd\<close>
  returns false and \<^verbatim>\<open>Test\<close> is still false afterwards. On a decoded filter with
  \<open>m = 128\<close>, \<open>k = 2\<close>, 128 bits and one word, and probe positions 0 and 64,
  \<^verbatim>\<open>Test\<close> returns false at the first probe while \<^verbatim>\<open>TestAndAdd\<close> goes on to the
  second and panics.
\<close>

theorem TestAndAdd_fails_on_decoded:
  "ReadFrom (2 ^ 48)
     [0, 0, 0, 0, 0, 0, 0, 128,  0, 0, 0, 0, 0, 0, 0, 1,  0, 0, 0, 0, 0, 0, 0, 64,
      0, 0, 0, 0, 0, 0, 0, 1,  0, 0, 0, 0, 0, 0, 0, 0] =
     Returns (\<lparr>bf_m = 128, bf_k = 1, bf_b = \<lparr>bs_data = [0], bs_size = 64\<rparr>\<rparr>, 40, []) \<and>
   TestAndAdd (\<lambda>dat. (100, 0, 0, 0)) \<lparr>bf_m = 128, bf_k = 1, bf_b = \<lparr>bs_data = [0], bs_size = 64\<rparr>\<rparr> [] =
     Inr (False, \<lparr>bf_m = 128, bf_k = 1, bf_b = \<lparr>bs_data = [0], bs_size = 64\<rparr>\<rparr>) \<and>
   Test (\<lambda>dat. (100, 0, 0, 0)) \<lparr>bf_m = 128, bf_k = 1, bf_b = \<lparr>bs_data = [0], bs_size = 64\<rparr>\<rparr> [] =
     Inr False \<and>
   ReadFrom (2 ^ 48)
     [0, 0, 0, 0, 0, 0, 0, 128,  0, 0, 0, 0, 0, 0, 0, 2,  0, 0, 0, 0, 0, 0, 0, 128,
      0, 0, 0, 0, 0, 0, 0, 1,  0, 0, 0, 0, 0, 0, 0, 0] =
     Returns (\<lparr>bf_m = 128, bf_k = 2, bf_b = \<lparr>bs_data = [0], bs_size = 128\<rparr>\<rparr>, 40, []) \<and>
   Test (\<lambda>dat. (0, 64, 0, 0)) \<lparr>bf_m = 128, bf_k = 2, bf_b = \<lparr>bs_data = [0], bs_size = 128\<rparr>\<rparr> [] =
     Inr False \<and>
   TestAndAdd (\<lambda>dat. (0, 64, 0, 0)) \<lparr>bf_m = 128, bf_k = 2, bf_b = \<lparr>bs_data = [0], bs_size = 128\<rparr>\<rparr> [] =
     Inl IndexOutOfRange"
proof -
  have 1: "ReadFrom (2 ^ 48)
     [0, 0, 0, 0, 0, 0, 0, 128,  0, 0, 0, 0, 0, 0, 0, 1,  0, 0, 0, 0, 0, 0, 0, 64,
      0, 0, 0, 0, 0, 0, 0, 1,  0, 0, 0, 0, 0, 0, 0, 0] =
     Returns (\<lparr>bf_m = 128, bf_k = 1, bf_b = \<lparr>bs_data = [0], bs_size = 64\<rparr>\<rparr>, 40, [])"
    using ReadFrom_encoded [of "[0]" "2 ^ 48" 128 1 64 "[]"]
    by (simp add: PutUint64_small PutUint64_more)
  have 2: "ReadFrom (2 ^ 48)
     [0, 0, 0, 0, 0, 0, 0, 128,  0, 0, 0, 0, 0, 0, 0, 2,  0, 0, 0, 0, 0, 0, 0, 128,
      0, 0, 0, 0, 0, 0, 0, 1,  0, 0, 0, 0, 0, 0, 0, 0] =
     Returns (\<lparr>bf_m = 128, bf_k = 2, bf_b = \<lparr>bs_data = [0], bs_size = 128\<rparr>\<rparr>, 40, [])"
    using ReadFrom_encoded [of "[0]" "2 ^ 48" 128 2 128 "[]"]
    by (simp add: PutUint64_small PutUint64_more)
  have 3: "TestAndAdd (\<lambda>dat. (100, 0, 0, 0)) \<lparr>bf_m = 128, bf_k = 1, bf_b = \<lparr>bs_data = [0], bs_size = 64\<rparr>\<rparr> [] =
     Inr (False, \<lparr>bf_m = 128, bf_k = 1, bf_b = \<lparr>bs_data = [0], bs_size = 64\<rparr>\<rparr>)"
    "Test (\<lambda>dat. (100, 0, 0, 0)) \<lparr>bf_m = 128, bf_k = 1, bf_b = \<lparr>bs_data = [0], bs_size = 64\<rparr>\<rparr> [] =
     Inr False"
    by (simp_all add: TestAndAdd_def TestAndAdd_loop.simps Test_def Test_loop.simps
        BloomFilter_location_def location_def Set_bs_def Test_bs_def word_le_nat_alt)
  have 4: "Test (\<lambda>dat. (0, 64, 0, 0)) \<lparr>bf_m = 128, bf_k = 2, bf_b = \<lparr>bs_data = [0], bs_size = 128\<rparr>\<rparr> [] =
     Inr False"
    "TestAndAdd (\<lambda>dat. (0, 64, 0, 0)) \<lparr>bf_m = 128, bf_k = 2, bf_b = \<lparr>bs_data = [0], bs_size = 128\<rparr>\<rparr> [] =
     Inl IndexOutOfRange"
    by (simp_all add: TestAndAdd_def TestAndAdd_loop.simps Test_def Test_loop.simps
        BloomFilter_location_def location_def Set_bs_def Test_bs_def word_le_nat_alt Let_def)
  from 1 2 3 4 show ?thesis by simp
qed

text \<open>
  Claim C3 does not hold for every pair of filters with equal \<open>m\<close> and \<open>k\<close>. Merging
  a decoded filter that has no words into \<open>New 64 1\<close> panics in \<^verbatim>\<open>InPlaceUnion\<close>. And
  a decoded receiver of 64 bits in one word, merged with a filter of 128 bits whose bit
  100 is set, returns no error and still tests false for the key of that bit.
\<close>

theorem Merge_panics_or_drops_keys_on_decoded:
  "ReadFrom (2 ^ 48)
     [0, 0, 0, 0, 0, 0, 0, 64,  0, 0, 0, 0, 0, 0, 0, 1,
      0, 0, 0, 0, 0, 0, 0, 64,  0, 0, 0, 0, 0, 0, 0, 0] =
     Returns (\<lparr>bf_m = 64, bf_k = 1, bf_b = \<lparr>bs_data = [], bs_size = 64\<rparr>\<rparr>, 32, []) \<and>
   bf_m (New 64 1) = 64 \<and> bf_k (New 64 1) = 1 \<and>
   Merge (New 64 1) \<lparr>bf_m = 64, bf_k = 1, bf_b = \<lparr>bs_data = [], bs_size = 64\<rparr>\<rparr> =
     Inl IndexOutOfRange \<and>
   ReadFrom (2 ^ 48)
     [0, 0, 0, 0, 0, 0, 0, 128,  0, 0, 0, 0, 0, 0, 0, 1,  0, 0, 0, 0, 0, 0, 0, 64,
      0, 0, 0, 0, 0, 0, 0, 1,  0, 0, 0, 0, 0, 0, 0, 0] =
     Returns (\<lparr>bf_m = 128, bf_k = 1, bf_b = \<lparr>bs_data = [0], bs_size = 64\<rparr>\<rparr>, 40, []) \<and>
   AddHash (New 128 1) (100, 0, 0, 0) =
     Inr \<lparr>bf_m = 128, bf_k = 1, bf_b = \<lparr>bs_data = [0, 68719476736], bs_size = 128\<rparr>\<rparr> \<and>
   TestHash \<lparr>bf_m = 128, bf_k = 1, bf_b = \<lparr>bs_data = [0, 68719476736], bs_size = 128\<rparr>\<rparr>
     (100, 0, 0, 0) = Inr True \<and>
   Merge \<lparr>bf_m = 128, bf_k = 1, bf_b = \<lparr>bs_data = [0], bs_size = 64\<rparr>\<rparr>
         \<lparr>bf_m = 128, bf_k = 1, bf_b = \<lparr>bs_data = [0, 68719476736], bs_size = 128\<rparr>\<rparr> =
     Inr (None, \<lparr>bf_m = 128, bf_k = 1, bf_b = \<lparr>bs_data = [0], bs_size = 64\<rparr>\<rparr>) \<and>
   TestHash \<lparr>bf_m = 128, bf_k = 1, bf_b = \<lparr>bs_data = [0], bs_size = 64\<rparr>\<rparr> (100, 0, 0, 0) = Inr False"
proof -
  have 1: "ReadFrom (2 ^ 48)
     [0, 0, 0, 0, 0, 0, 0, 64,  0, 0, 0, 0, 0, 0, 0, 1,
      0, 0, 0, 0, 0, 0, 0, 64,  0, 0, 0, 0, 0, 0, 0, 0] =
     Returns (\<lparr>bf_m = 64, bf_k = 1, bf_b = \<lparr>bs_data = [], bs_size = 64\<rparr>\<rparr>, 32, [])"
    using ReadFrom_encoded [of "[]" "2 ^ 48" 64 1 64 "[]"] by (simp add: PutUint64_small)
  have 2: "ReadFrom (2 ^ 48)
     [0, 0, 0, 0, 0, 0, 0, 128,  0, 0, 0, 0, 0, 0, 0, 1,  0, 0, 0, 0, 0, 0, 0, 64,
      0, 0, 0, 0, 0, 0, 0, 1,  0, 0, 0, 0, 0, 0, 0, 0] =
     Returns (\<lparr>bf_m = 128, bf_k = 1, bf_b = \<lparr>bs_data = [0], bs_size = 64\<rparr>\<rparr>, 40, [])"
    using ReadFrom_encoded [of "[0]" "2 ^ 48" 128 1 64 "[]"]
    by (simp add: PutUint64_small PutUint64_more)
  have new: "New 64 1 = \<lparr>bf_m = 64, bf_k = 1, bf_b = \<lparr>bs_data = [0], bs_size = 64\<rparr>\<rparr>"
    by (simp add: New_def max_uint_def newAtomicBitSet_def)
  have two: "replicate 2 (0 :: u64) = [0, 0]" by (simp add: numeral_2_eq_2)
  have new': "New 128 1 = \<lparr>bf_m = 128, bf_k = 1, bf_b = \<lparr>bs_data = [0, 0], bs_size = 128\<rparr>\<rparr>"
    by (simp add: New_def max_uint_def newAtomicBitSet_def two)
  have 3: "Merge (New 64 1) \<lparr>bf_m = 64, bf_k = 1, bf_b = \<lparr>bs_data = [], bs_size = 64\<rparr>\<rparr> =
     Inl IndexOutOfRange"
    by (simp add: new Merge_def InPlaceUnion_def)
  have 4: "AddHash (New 128 1) (100, 0, 0, 0) =
     Inr \<lparr>bf_m = 128, bf_k = 1, bf_b = \<lparr>bs_data = [0, 68719476736], bs_size = 128\<rparr>\<rparr>"
    by (simp add: new' AddHash_def Add_loop.simps BloomFilter_location_def location_def
        Set_bs_def word_le_nat_alt)
  have 5: "TestHash \<lparr>bf_m = 128, bf_k = 1, bf_b = \<lparr>bs_data = [0, 68719476736], bs_size = 128\<rparr>\<rparr>
     (100, 0, 0, 0) = Inr True"
    "TestHash \<lparr>bf_m = 128, bf_k = 1, bf_b = \<lparr>bs_data = [0], bs_size = 64\<rparr>\<rparr> (100, 0, 0, 0) = Inr False"
    by (simp_all add: TestHash_def Test_loop.simps BloomFilter_location_def location_def
        Test_bs_def word_le_nat_alt)
  have 6: "Merge \<lparr>bf_m = 128, bf_k = 1, bf_b = \<lparr>bs_data = [0], bs_size = 64\<rparr>\<rparr>
         \<lparr>bf_m = 128, bf_k = 1, bf_b = \<lparr>bs_data = [0, 68719476736], bs_size = 128\<rparr>\<rparr> =
     Inr (None, \<lparr>bf_m = 128, bf_k = 1, bf_b = \<lparr>bs_data = [0], bs_size = 64\<rparr>\<rparr>)"
    by (simp add: Merge_def InPlaceUnion_def)
  from 1 2 3 4 5 6 show ?thesis by (simp add: new)
qed

section \<open>Clamping in the constructors (C7)\<close>

text \<open>
  \<^verbatim>\<open>New\<close>, and \<^verbatim>\<open>NewWithEstimates\<close> through it, clamp both parameters.
  \<^verbatim>\<open>FromWithM\<close>, and \<^verbatim>\<open>From\<close> through it, clamp \<open>k\<close> only and keep \<open>m\<close>.
\<close>

lemma max_uint_ge1: "1 \<le> max_uint 1 m"
  by (auto simp: max_uint_def not_less simp del: word_less_1)

lemma New_clamps: "1 \<le> Cap (New m k) \<and> 1 \<le> K (New m k) \<and> Cap (New 0 k) = 1 \<and> K (New m 0) = 1"
  by (simp add: New_def Cap_def K_def Let_def max_uint_ge1) (simp add: max_uint_def)

lemma NewWithEstimates_clamps:
  "1 \<le> Cap (NewWithEstimates est n fp) \<and> 1 \<le> K (NewWithEstimates est n fp)"
  by (simp add: NewWithEstimates_def New_clamps split: prod.split)

lemma FromWithM_clamps_k:
  "1 \<le> K (FromWithM dat m k) \<and> 1 \<le> K (From dat k) \<and> Cap (FromWithM dat m k) = m"
  by (simp add: FromWithM_def From_def K_def Cap_def Let_def max_uint_ge1)

text \<open>
  Claim C7 fails for \<^verbatim>\<open>FromWithM\<close> and \<^verbatim>\<open>From\<close>: with \<open>m = 0\<close> (for
  \<^verbatim>\<open>From\<close>, with no data) the filter has \<^verbatim>\<open>Cap() = 0\<close>, while \<open>k = 0\<close> is clamped
  to 1. On that filter every \<^verbatim>\<open>Add\<close> and every \<^verbatim>\<open>Test\<close> divides by zero.
\<close>

theorem FromWithM_keeps_m_zero:
  "Cap (FromWithM [] 0 0) = 0 \<and> K (FromWithM [] 0 0) = 1 \<and>
   Cap (From [] 0) = 0 \<and> K (From [] 0) = 1 \<and>
   (\<forall>baseHashes dat. Add baseHashes (From [] 0) dat = Inl DivideByZero) \<and>
   (\<forall>baseHashes dat. Test baseHashes (From [] 0) dat = Inl DivideByZero)"
  by (simp add: FromWithM_def From_def K_def Cap_def max_uint_def fromAtomicBitSet_def
      newAtomicBitSet_def Add_def Add_loop.simps Test_def Test_loop.simps BloomFilter_location_def)

end
